theory Spec2Isabelle
  imports Main "HOL-Library.Word"
begin

section \<open>SnippetVCS core: a shallow embedding\<close>

text \<open>
  The definitions below follow the C and C++ sources of the version control core
  (\<^verbatim>\<open>src/vcs/src/core\<close>, \<^verbatim>\<open>src/vcs/include/svcs.h\<close>), function by function and under the
  source's names.

  Conventions of the embedding:
  \<^item> a raw byte (\<^verbatim>\<open>uint8_t\<close>, the cells of a \<^verbatim>\<open>void *\<close> buffer) is an \<open>8 word\<close>; a C string is a
    \<open>string\<close>, the characters before its terminating zero;
  \<^item> \<^verbatim>\<open>svcs_error_t\<close> results are sums: \<open>Inr\<close> carries what the function hands back on
    \<^verbatim>\<open>SVCS_OK\<close>, \<open>Inl\<close> the error code;
  \<^item> pointer arguments are taken to be non-null and \<^verbatim>\<open>malloc\<close>, \<^verbatim>\<open>calloc\<close>, \<^verbatim>\<open>realloc\<close> and
    \<^verbatim>\<open>EVP_MD_CTX_new\<close> to succeed, so the \<^verbatim>\<open>SVCS_ERROR_MEMORY\<close> returns and the null-argument
    \<^verbatim>\<open>SVCS_ERROR_INVALID\<close> returns have no branch here, with one exception: the request that
    \<^verbatim>\<open>svcs_file_read\<close> makes for a directory has the size the file system reports, and is the
    platform's to grant; paths are shorter than \<^verbatim>\<open>SVCS_MAX_PATH\<close>, so no \<^verbatim>\<open>snprintf\<close>
    truncates;
  \<^item> the libraries the sources link against (OpenSSL's SHA3-256, zlib) are parameters of the
    functions that call them.
\<close>

subsection \<open>Basic types (\<^verbatim>\<open>svcs.h\<close>)\<close>

type_synonym byte = "8 word"

datatype svcs_error_t =
    SVCS_ERROR
  | SVCS_ERROR_NOT_FOUND
  | SVCS_ERROR_EXISTS
  | SVCS_ERROR_INVALID
  | SVCS_ERROR_IO
  | SVCS_ERROR_MEMORY
  | SVCS_ERROR_CORRUPT

datatype svcs_object_type_t = SVCS_OBJ_BLOB | SVCS_OBJ_TREE | SVCS_OBJ_COMMIT | SVCS_OBJ_TAG

datatype svcs_file_status_t =
    SVCS_STATUS_UNTRACKED
  | SVCS_STATUS_ADDED
  | SVCS_STATUS_MODIFIED
  | SVCS_STATUS_DELETED
  | SVCS_STATUS_RENAMED
  | SVCS_STATUS_COPIED

text \<open>\<^verbatim>\<open>svcs_hash_t\<close> is an array of \<^verbatim>\<open>SVCS_HASH_SIZE\<close> bytes.\<close>

type_synonym svcs_hash_t = "byte list"

definition SVCS_HASH_SIZE :: nat where
  "SVCS_HASH_SIZE = 32"

definition SVCS_HASH_HEX_SIZE :: nat where
  "SVCS_HASH_HEX_SIZE = 65"

subsection \<open>C strings and the libc functions the sources call\<close>

definition NUL :: char where
  "NUL = CHR 0x00"

text \<open>\<^verbatim>\<open>strlen\<close>: the number of characters before the first zero.\<close>

definition strlen :: "string \<Rightarrow> nat" where
  "strlen s = length (takeWhile (\<lambda>c. c \<noteq> NUL) s)"

definition bytes_of :: "string \<Rightarrow> byte list" where
  "bytes_of s = map of_char s"

definition chars_of :: "byte list \<Rightarrow> string" where
  "chars_of bs = map (\<lambda>b. char_of (unat b)) bs"

definition isspace :: "char \<Rightarrow> bool" where
  "isspace c = (c \<in> set [CHR '' '', CHR 0x09, CHR 0x0A, CHR 0x0B, CHR 0x0C, CHR 0x0D])"

definition digit_chars :: string where
  "digit_chars = ''0123456789abcdef''"

text \<open>The value of a digit in base 16, either case; \<open>None\<close> for any other character.\<close>

definition xdigit_val :: "char \<Rightarrow> nat option" where
  "xdigit_val c =
     (let n = (of_char c :: nat) in
      if 48 \<le> n \<and> n \<le> 57 then Some (n - 48)
      else if 97 \<le> n \<and> n \<le> 102 then Some (n - 87)
      else if 65 \<le> n \<and> n \<le> 70 then Some (n - 55)
      else None)"

definition isxdigit :: "char \<Rightarrow> bool" where
  "isxdigit c = (xdigit_val c \<noteq> None)"

definition LONG_MAX :: int where
  "LONG_MAX = 2 ^ 63 - 1"

definition LONG_MIN :: int where
  "LONG_MIN = - (2 ^ 63)"

text \<open>
  \<^verbatim>\<open>strtol(s, NULL, 16)\<close>: leading white space is skipped, then an optional sign, then an
  optional \<^verbatim>\<open>0x\<close> prefix (taken only when a hexadecimal digit follows it), then the longest
  run of hexadecimal digits. No digits at all give 0; a value out of range is clamped.
\<close>

definition strtol16 :: "string \<Rightarrow> int" where
  "strtol16 s =
     (let s1 = dropWhile isspace s;
          neg = (case s1 of c # _ \<Rightarrow> c = CHR ''-'' | [] \<Rightarrow> False);
          s2 = (case s1 of c # r \<Rightarrow> if c = CHR ''-'' \<or> c = CHR ''+'' then r else s1 | [] \<Rightarrow> s1);
          s3 = (case s2 of
                  z # x # d # r \<Rightarrow>
                    if z = CHR ''0'' \<and> (x = CHR ''x'' \<or> x = CHR ''X'') \<and> isxdigit d
                    then d # r else s2
                | _ \<Rightarrow> s2);
          v = foldl (\<lambda>a c. 16 * a + int (the (xdigit_val c))) 0 (takeWhile isxdigit s3);
          r = (if neg then - v else v)
      in max LONG_MIN (min LONG_MAX r))"

text \<open>\<^verbatim>\<open>printf("%02x", b)\<close> for a byte: two lowercase hexadecimal digits.\<close>

definition fmt_02x :: "byte \<Rightarrow> string" where
  "fmt_02x b = [digit_chars ! (unat b div 16), digit_chars ! (unat b mod 16)]"

subsection \<open>Hashing (\<^verbatim>\<open>hash.c\<close>)\<close>

definition svcs_hash_init :: svcs_hash_t where
  "svcs_hash_init = replicate SVCS_HASH_SIZE 0"

text \<open>
  \<^verbatim>\<open>svcs_hash_to_string\<close>: for each of the 32 bytes, \<^verbatim>\<open>sprintf(str + 2*i, "%02x", bytes[i])\<close>,
  then the terminator at \<^verbatim>\<open>str[64]\<close>.
\<close>

definition svcs_hash_to_string :: "svcs_hash_t \<Rightarrow> string" where
  "svcs_hash_to_string hash = concat (map (\<lambda>i. fmt_02x (hash ! i)) [0..<SVCS_HASH_SIZE])"

text \<open>
  \<^verbatim>\<open>svcs_hash_from_string\<close>: the only check is \<^verbatim>\<open>strlen(str) != SVCS_HASH_HEX_SIZE - 1\<close>; each
  pair of characters then goes through \<^verbatim>\<open>strtol\<close> and a cast to \<^verbatim>\<open>uint8_t\<close>.
\<close>

definition svcs_hash_from_string :: "string \<Rightarrow> svcs_error_t + svcs_hash_t" where
  "svcs_hash_from_string str =
     (if strlen str \<noteq> SVCS_HASH_HEX_SIZE - 1 then Inl SVCS_ERROR_INVALID
      else Inr (map (\<lambda>i. (word_of_int (strtol16 [str ! (i * 2), str ! (i * 2 + 1)]) :: byte))
                    [0..<SVCS_HASH_SIZE]))"

text \<open>\<^verbatim>\<open>svcs_hash_compare\<close> is \<^verbatim>\<open>memcmp\<close> over the 32 bytes: zero exactly when they agree.\<close>

fun memcmp :: "byte list \<Rightarrow> byte list \<Rightarrow> int" where
  "memcmp (x # xs) (y # ys) = (if x = y then memcmp xs ys else int (unat x) - int (unat y))"
| "memcmp _ _ = 0"

definition svcs_hash_compare :: "svcs_hash_t \<Rightarrow> svcs_hash_t \<Rightarrow> int" where
  "svcs_hash_compare a b = memcmp (take SVCS_HASH_SIZE a) (take SVCS_HASH_SIZE b)"

text \<open>\<^verbatim>\<open>printf("%zu", n)\<close>: the decimal digits of \<open>n\<close>.\<close>

function fmt_zu :: "nat \<Rightarrow> string" where
  "fmt_zu n = (if n < 10 then [digit_chars ! n] else fmt_zu (n div 10) @ [digit_chars ! (n mod 10)])"
  by pat_completeness auto
termination
  by (relation "measure (\<lambda>n. n)") auto

declare fmt_zu.simps [simp del]

text \<open>\<^verbatim>\<open>printf("%o", n)\<close>: the octal digits of \<open>n\<close>.\<close>

function fmt_o :: "nat \<Rightarrow> string" where
  "fmt_o n = (if n < 8 then [digit_chars ! n] else fmt_o (n div 8) @ [digit_chars ! (n mod 8)])"
  by pat_completeness auto
termination
  by (relation "measure (\<lambda>n. n)") auto

declare fmt_o.simps [simp del]

definition isdigit :: "char \<Rightarrow> bool" where
  "isdigit c = (48 \<le> (of_char c :: nat) \<and> (of_char c :: nat) \<le> 57)"

definition ULONG_MAX :: nat where
  "ULONG_MAX = 2 ^ 64 - 1"

text \<open>
  \<^verbatim>\<open>strtoul(s, NULL, 10)\<close>: white space, an optional sign, the longest run of decimal digits;
  the value is clamped to \<^verbatim>\<open>ULONG_MAX\<close>, and negated modulo \<open>2^64\<close> after a minus sign.
\<close>

definition strtoul10 :: "string \<Rightarrow> nat" where
  "strtoul10 s =
     (let s1 = dropWhile isspace s;
          neg = (case s1 of c # _ \<Rightarrow> c = CHR ''-'' | [] \<Rightarrow> False);
          s2 = (case s1 of c # r \<Rightarrow> if c = CHR ''-'' \<or> c = CHR ''+'' then r else s1 | [] \<Rightarrow> s1);
          v = foldl (\<lambda>a c. 10 * a + (of_char c - 48)) 0 (takeWhile isdigit s2);
          u = min ULONG_MAX v
      in if neg then (2 ^ 64 - u) mod 2 ^ 64 else u)"

text \<open>
  A buffer read as a C string (\<^verbatim>\<open>(char*)data\<close>): the characters up to the first zero byte.
  The sources do this with file contents that carry no terminator of their own; the model
  ends the string at the end of the buffer then.
\<close>

definition cstring :: "byte list \<Rightarrow> string" where
  "cstring data = takeWhile (\<lambda>c. c \<noteq> NUL) (chars_of data)"

text \<open>\<^verbatim>\<open>char *nl = strchr(s, '\n'); if (nl) *nl = '\0';\<close>\<close>

definition cut_newline :: "string \<Rightarrow> string" where
  "cut_newline s = takeWhile (\<lambda>c. c \<noteq> CHR 0x0A) s"

subsection \<open>OpenSSL's digest interface\<close>

text \<open>
  The digest context accumulates the bytes passed to \<^verbatim>\<open>EVP_DigestUpdate\<close>;
  \<^verbatim>\<open>EVP_DigestFinal_ex\<close> applies SHA3-256, a parameter \<open>sha3_256\<close> of every function that
  hashes.
\<close>

type_synonym digest = "byte list \<Rightarrow> svcs_hash_t"

definition EVP_DigestInit_ex :: "byte list" where
  "EVP_DigestInit_ex = []"

definition EVP_DigestUpdate :: "byte list \<Rightarrow> byte list \<Rightarrow> byte list" where
  "EVP_DigestUpdate ctx data = ctx @ data"

definition EVP_DigestFinal_ex :: "digest \<Rightarrow> byte list \<Rightarrow> svcs_hash_t" where
  "EVP_DigestFinal_ex sha3_256 ctx = sha3_256 ctx"

text \<open>
  \<^verbatim>\<open>svcs_hash_update(hash, data, len)\<close>: returns at once when \<^verbatim>\<open>len == 0\<close>; otherwise a fresh
  context is created, fed \<open>data\<close>, finalised into \<^verbatim>\<open>hash->bytes\<close> and freed.
\<close>

definition svcs_hash_update :: "digest \<Rightarrow> svcs_hash_t \<Rightarrow> byte list \<Rightarrow> svcs_hash_t" where
  "svcs_hash_update sha3_256 hash data =
     (if length data = 0 then hash
      else EVP_DigestFinal_ex sha3_256 (EVP_DigestUpdate EVP_DigestInit_ex data))"

definition svcs_hash_final :: "svcs_hash_t \<Rightarrow> svcs_hash_t" where
  "svcs_hash_final hash = hash"

definition type_str :: "svcs_object_type_t \<Rightarrow> string" where
  "type_str t = (case t of SVCS_OBJ_BLOB \<Rightarrow> ''blob'' | SVCS_OBJ_TREE \<Rightarrow> ''tree''
                 | SVCS_OBJ_COMMIT \<Rightarrow> ''commit'' | SVCS_OBJ_TAG \<Rightarrow> ''tag'')"

text \<open>
  \<^verbatim>\<open>svcs_hash_object(type, data, size, hash)\<close>; \<open>size\<close> is the length of \<open>data\<close>. The four
  constructors of \<open>svcs_object_type_t\<close> are the four cases of the \<^verbatim>\<open>switch\<close>; its \<^verbatim>\<open>default\<close>
  case has no value to stand for it.
\<close>

definition svcs_hash_object :: "digest \<Rightarrow> svcs_object_type_t \<Rightarrow> byte list \<Rightarrow> svcs_hash_t" where
  "svcs_hash_object sha3_256 t data =
     (let header = type_str t @ '' '' @ fmt_zu (length data);
          ctx0 = EVP_DigestInit_ex;
          ctx1 = EVP_DigestUpdate ctx0 (bytes_of header);
          ctx2 = EVP_DigestUpdate ctx1 [0];
          ctx3 = EVP_DigestUpdate ctx2 data
      in EVP_DigestFinal_ex sha3_256 ctx3)"

subsection \<open>Compression (\<^verbatim>\<open>compress.c\<close>)\<close>

text \<open>
  zlib's \<^verbatim>\<open>compressBound\<close>, \<^verbatim>\<open>compress\<close> and \<^verbatim>\<open>uncompress\<close> are taken as parameters. The two
  codec calls get the capacity of the destination buffer and the source bytes, and answer
  \<^verbatim>\<open>Z_OK\<close> with the bytes written or one of zlib's error codes.
\<close>

datatype zresult = Z_OK "byte list" | Z_BUF_ERROR | Z_DATA_ERROR | Z_MEM_ERROR

record zlib =
  compressBound :: "nat \<Rightarrow> nat"
  compress :: "nat \<Rightarrow> byte list \<Rightarrow> zresult"
  uncompress :: "nat \<Rightarrow> byte list \<Rightarrow> zresult"


text \<open>
  The loop of \<^verbatim>\<open>svcs_decompress\<close>: call \<^verbatim>\<open>uncompress\<close>; while it answers \<^verbatim>\<open>Z_BUF_ERROR\<close>, double
  the buffer and call it again. Nothing bounds the number of rounds, so the loop is a partial
  function: \<open>None\<close> stands for a run that never returns.
\<close>

partial_function (option) decompress_loop ::
  "zlib \<Rightarrow> byte list \<Rightarrow> nat \<Rightarrow> (svcs_error_t + byte list) option" where
  "decompress_loop z input buffer_size =
     (case uncompress z buffer_size input of
        Z_BUF_ERROR \<Rightarrow> decompress_loop z input (buffer_size * 2)
      | Z_OK out \<Rightarrow> Some (Inr out)
      | Z_DATA_ERROR \<Rightarrow> Some (Inl SVCS_ERROR)
      | Z_MEM_ERROR \<Rightarrow> Some (Inl SVCS_ERROR))"

declare decompress_loop.simps [code]

definition svcs_decompress :: "zlib \<Rightarrow> byte list \<Rightarrow> (svcs_error_t + byte list) option" where
  "svcs_decompress z input =
     (if length input = 0 then Some (Inl SVCS_ERROR_INVALID)
      else decompress_loop z input (length input * 4))"

text \<open>
  A toy codec, used to run the model on concrete inputs: the compressed form is the byte
  \<open>0x78\<close> followed by the input, stored as it is.
\<close>

definition stored_codec :: zlib where
  "stored_codec =
     \<lparr> compressBound = (\<lambda>n. n + 13),
       compress = (\<lambda>cap src. if length src + 1 \<le> cap then Z_OK (0x78 # src) else Z_BUF_ERROR),
       uncompress = (\<lambda>cap src. case src of
                        [] \<Rightarrow> Z_BUF_ERROR
                      | b # rest \<Rightarrow> if b \<noteq> 0x78 then Z_DATA_ERROR
                                     else if length rest \<le> cap then Z_OK rest else Z_BUF_ERROR) \<rparr>"

text \<open>A toy digest for the same purpose: 32 bytes that depend on the length of the input only.\<close>

definition length_digest :: digest where
  "length_digest data = replicate 31 0 @ [of_nat (length data) + 1]"

subsection \<open>Three-way merge of line sequences (\<^verbatim>\<open>merge_engine.cpp\<close>)\<close>

datatype ConflictType = CONTENT | ADD_ADD | MODIFY_DELETE | DELETE_MODIFY | RENAME_RENAME | MODE_CHANGE

record MergeConflict =
  file_path :: string
  conflict_type :: ConflictType
  our_content :: string
  their_content :: string
  base_content :: string
  our_line_start :: int
  our_line_end :: int
  their_line_start :: int
  their_line_end :: int
  resolution :: string
  resolved :: bool

record ThreeWayMergeResult =
  merged_content :: string
  conflicts :: "MergeConflict list"
  has_conflicts :: bool
  success :: bool
  error_message :: string

text \<open>\<^verbatim>\<open>join_lines\<close>: the lines with a newline between neighbours, none after the last.\<close>

fun join_lines :: "string list \<Rightarrow> string" where
  "join_lines [] = []"
| "join_lines [l] = l"
| "join_lines (l # ls) = l @ [CHR 0x0A] @ join_lines ls"

text \<open>
  The conflict branch of the loop body: a \<^verbatim>\<open>MergeConflict\<close> (its other fields keep the
  defaults of the struct) and the block of marker lines; \<^verbatim>\<open>conflict_size\<close> is the constant 1.
\<close>

definition conflict_lines :: "string list \<Rightarrow> nat \<Rightarrow> string list" where
  "conflict_lines ls idx = (if idx < length ls then [ls ! idx] else [])"

definition make_conflict :: "string list \<Rightarrow> string list \<Rightarrow> nat \<Rightarrow> nat \<Rightarrow> MergeConflict" where
  "make_conflict our_lines their_lines our_idx their_idx =
     (let our_conflict_lines = conflict_lines our_lines our_idx;
          their_conflict_lines = conflict_lines their_lines their_idx
      in \<lparr> file_path = [],
           conflict_type = CONTENT,
           our_content = join_lines our_conflict_lines,
           their_content = join_lines their_conflict_lines,
           base_content = [],
           our_line_start = int our_idx,
           our_line_end = int our_idx + int (length our_conflict_lines) - 1,
           their_line_start = int their_idx,
           their_line_end = int their_idx + int (length their_conflict_lines) - 1,
           resolution = [],
           resolved = False \<rparr>)"

definition conflict_markers :: "string list \<Rightarrow> string list \<Rightarrow> nat \<Rightarrow> nat \<Rightarrow> string list" where
  "conflict_markers our_lines their_lines our_idx their_idx =
     [''<<<<<<< HEAD''] @ conflict_lines our_lines our_idx @ [''=======''] @
     conflict_lines their_lines their_idx @ [''>>>>>>> '' @ ''branch'']"

text \<open>
  The \<^verbatim>\<open>while\<close> loop of \<^verbatim>\<open>three_way_merge_lines\<close>, with its three indices, the merged lines
  and the conflicts collected so far.
\<close>

function merge_loop ::
  "string list \<Rightarrow> string list \<Rightarrow> string list \<Rightarrow> nat \<Rightarrow> nat \<Rightarrow> nat \<Rightarrow>
   string list \<Rightarrow> MergeConflict list \<Rightarrow> bool \<Rightarrow> string list \<times> MergeConflict list \<times> bool" where
  "merge_loop base_lines our_lines their_lines base_idx our_idx their_idx merged_lines cs hc =
     (if base_idx < length base_lines \<or> our_idx < length our_lines \<or> their_idx < length their_lines
      then
        if base_idx < length base_lines \<and> our_idx < length our_lines \<and> their_idx < length their_lines
           \<and> base_lines ! base_idx = our_lines ! our_idx
           \<and> our_lines ! our_idx = their_lines ! their_idx
        then merge_loop base_lines our_lines their_lines (base_idx + 1) (our_idx + 1) (their_idx + 1)
               (merged_lines @ [our_lines ! our_idx]) cs hc
        else if base_idx < length base_lines \<and> our_idx < length our_lines
                \<and> base_lines ! base_idx = our_lines ! our_idx \<and> their_idx < length their_lines
        then merge_loop base_lines our_lines their_lines (base_idx + 1) (our_idx + 1) (their_idx + 1)
               (merged_lines @ [their_lines ! their_idx]) cs hc
        else if base_idx < length base_lines \<and> their_idx < length their_lines
                \<and> base_lines ! base_idx = their_lines ! their_idx \<and> our_idx < length our_lines
        then merge_loop base_lines our_lines their_lines (base_idx + 1) (our_idx + 1) (their_idx + 1)
               (merged_lines @ [our_lines ! our_idx]) cs hc
        else merge_loop base_lines our_lines their_lines (base_idx + 1) (our_idx + 1) (their_idx + 1)
               (merged_lines @ conflict_markers our_lines their_lines our_idx their_idx)
               (cs @ [make_conflict our_lines their_lines our_idx their_idx]) True
      else (merged_lines, cs, hc))"
  by pat_completeness auto
termination
  by (relation "measure (\<lambda>(b, ours, theirs, bi, oi, ti, m, cs, hc).
        (length b - bi) + (length ours - oi) + (length theirs - ti))") auto

declare merge_loop.simps [simp del]

definition three_way_merge_lines ::
  "string list \<Rightarrow> string list \<Rightarrow> string list \<Rightarrow> ThreeWayMergeResult" where
  "three_way_merge_lines base_lines our_lines their_lines =
     (case merge_loop base_lines our_lines their_lines 0 0 0 [] [] False of
        (merged_lines, cs, hc) \<Rightarrow>
          \<lparr> merged_content = join_lines merged_lines,
            conflicts = cs,
            has_conflicts = hc,
            success = True,
            error_message = [] \<rparr>)"

subsection \<open>Files (\<^verbatim>\<open>utils.c\<close>)\<close>

text \<open>
  The file system maps a path to a node: its modification time and, for a regular file,
  its bytes; a node without bytes is a directory. The empty path stands for the directory
  every path without a slash, and every path with a single leading slash, lives in.
  Permissions and a full disk are not modelled: opening a file for writing fails only when
  its directory is missing or the path names a directory.
\<close>

record fnode =
  st_mtime :: int
  st_data :: "byte list option"

type_synonym filesystem = "string \<Rightarrow> fnode option"

definition svcs_file_exists :: "filesystem \<Rightarrow> string \<Rightarrow> bool" where
  "svcs_file_exists fs path = (fs path \<noteq> None)"

definition svcs_file_mtime :: "filesystem \<Rightarrow> string \<Rightarrow> int" where
  "svcs_file_mtime fs path = (case fs path of Some n \<Rightarrow> st_mtime n | None \<Rightarrow> 0)"

text \<open>
  \<^verbatim>\<open>svcs_file_read\<close> does not ask whether the path is a regular file, and
  \<^verbatim>\<open>fopen(path, "rb")\<close> opens a directory as well. What follows then is the platform's: the
  offset that \<^verbatim>\<open>ftell\<close> reports after \<^verbatim>\<open>fseek(file, 0, SEEK_END)\<close> on the directory (0 on
  tmpfs, \<^verbatim>\<open>LONG_MAX\<close> on ext4 with hashed directories), and whether \<^verbatim>\<open>malloc\<close> grants a request
  of that many bytes. \<^verbatim>\<open>fread\<close> reads no byte from a directory.
\<close>

record platform =
  dir_seek_end :: "string \<Rightarrow> int"
  malloc_ok :: "nat \<Rightarrow> bool"

definition svcs_file_read :: "platform \<Rightarrow> filesystem \<Rightarrow> string \<Rightarrow> svcs_error_t + byte list" where
  "svcs_file_read os fs path =
     (case fs path of
        None \<Rightarrow> Inl SVCS_ERROR_IO
      | Some n \<Rightarrow>
          (case st_data n of
             Some data \<Rightarrow> Inr data
           | None \<Rightarrow>
               let file_size = dir_seek_end os path
               in if file_size < 0 then Inl SVCS_ERROR_IO
                  else
                    let size = nat file_size
                    in if \<not> malloc_ok os size then Inl SVCS_ERROR_MEMORY
                       else
                         let bytes_read = 0
                         in if bytes_read \<noteq> size then Inl SVCS_ERROR_IO else Inr []))"

text \<open>Two platforms to run the functions on.\<close>

definition tmpfs :: platform where
  "tmpfs = \<lparr> dir_seek_end = (\<lambda>_. 0), malloc_ok = (\<lambda>_. True) \<rparr>"

definition ext4 :: platform where
  "ext4 = \<lparr> dir_seek_end = (\<lambda>_. LONG_MAX), malloc_ok = (\<lambda>size. int size < LONG_MAX) \<rparr>"

text \<open>The part of a path before its last slash (\<^verbatim>\<open>*strrchr(p, '/') = '\0'\<close>).\<close>

definition dirname :: "string \<Rightarrow> string" where
  "dirname path = rev (drop 1 (dropWhile (\<lambda>c. c \<noteq> CHR ''/'') (rev path)))"

definition is_directory :: "filesystem \<Rightarrow> string \<Rightarrow> bool" where
  "is_directory fs d =
     (d = [] \<or> (case fs d of Some n \<Rightarrow> st_data n = None | None \<Rightarrow> False))"

definition fopen_wb :: "filesystem \<Rightarrow> string \<Rightarrow> bool" where
  "fopen_wb fs path =
     (is_directory fs (dirname path)
      \<and> (case fs path of Some n \<Rightarrow> st_data n \<noteq> None | None \<Rightarrow> True))"

definition svcs_file_write ::
  "int \<Rightarrow> string \<Rightarrow> byte list \<Rightarrow> filesystem \<Rightarrow> (svcs_error_t + unit) \<times> filesystem" where
  "svcs_file_write now path data fs =
     (if \<not> fopen_wb fs path then (Inl SVCS_ERROR_IO, fs)
      else (Inr (), fs(path \<mapsto> \<lparr> st_mtime = now, st_data = Some data \<rparr>)))"

datatype mkdir_result = MKDIR_OK | EEXIST | ENOENT

definition mkdir :: "int \<Rightarrow> string \<Rightarrow> filesystem \<Rightarrow> mkdir_result \<times> filesystem" where
  "mkdir now path fs =
     (if path = [] then (ENOENT, fs)
      else if fs path \<noteq> None then (EEXIST, fs)
      else if is_directory fs (dirname path)
      then (MKDIR_OK, fs(path \<mapsto> \<lparr> st_mtime = now, st_data = None \<rparr>))
      else (ENOENT, fs))"

text \<open>
  The \<^verbatim>\<open>for\<close> loop of \<^verbatim>\<open>svcs_mkdir_recursive\<close>: at every slash from position 1 on, the prefix
  before it is created; any failure but \<^verbatim>\<open>EEXIST\<close> ends the function with \<^verbatim>\<open>SVCS_ERROR_IO\<close>.
\<close>

fun mkdir_prefixes ::
  "int \<Rightarrow> string \<Rightarrow> nat list \<Rightarrow> filesystem \<Rightarrow> (svcs_error_t + unit) \<times> filesystem" where
  "mkdir_prefixes now tmp [] fs = (Inr (), fs)"
| "mkdir_prefixes now tmp (p # ps) fs =
     (if tmp ! p = CHR ''/'' then
        (case mkdir now (take p tmp) fs of
           (ENOENT, fs') \<Rightarrow> (Inl SVCS_ERROR_IO, fs')
         | (_, fs') \<Rightarrow> mkdir_prefixes now tmp ps fs')
      else mkdir_prefixes now tmp ps fs)"

definition svcs_mkdir_recursive ::
  "int \<Rightarrow> string \<Rightarrow> filesystem \<Rightarrow> (svcs_error_t + unit) \<times> filesystem" where
  "svcs_mkdir_recursive now path fs =
     (let tmp = (if path \<noteq> [] \<and> last path = CHR ''/'' then butlast path else path)
      in case mkdir_prefixes now tmp [1..<length tmp] fs of
           (Inl e, fs') \<Rightarrow> (Inl e, fs')
         | (Inr _, fs') \<Rightarrow>
             (case mkdir now tmp fs' of
                (ENOENT, fs'') \<Rightarrow> (Inl SVCS_ERROR_IO, fs'')
              | (_, fs'') \<Rightarrow> (Inr (), fs'')))"

text \<open>
  \<^verbatim>\<open>svcs_hash_file\<close>: the blob hash of a file's bytes, or the error of \<^verbatim>\<open>svcs_file_read\<close>.
\<close>

definition svcs_hash_file ::
  "platform \<Rightarrow> digest \<Rightarrow> filesystem \<Rightarrow> string \<Rightarrow> svcs_error_t + svcs_hash_t" where
  "svcs_hash_file os sha3_256 fs path =
     (case svcs_file_read os fs path of
        Inl err \<Rightarrow> Inl err
      | Inr data \<Rightarrow>
          (let header = ''blob '' @ fmt_zu (length data);
               ctx0 = EVP_DigestInit_ex;
               ctx1 = EVP_DigestUpdate ctx0 (bytes_of header);
               ctx2 = EVP_DigestUpdate ctx1 [0];
               ctx3 = EVP_DigestUpdate ctx2 data
           in Inr (EVP_DigestFinal_ex sha3_256 ctx3)))"

subsection \<open>Repository, index and objects (\<^verbatim>\<open>svcs.h\<close>)\<close>

record svcs_object_t =
  obj_type :: svcs_object_type_t
  obj_size :: nat
  obj_hash :: svcs_hash_t

record svcs_index_entry_t =
  entry_path :: string
  entry_hash :: svcs_hash_t
  entry_mode :: "32 word"
  entry_mtime :: int
  entry_size :: nat
  entry_status :: svcs_file_status_t

record svcs_index_t =
  entries :: "svcs_index_entry_t list"
  index_timestamp :: int

record svcs_repository_t =
  repo_path :: string
  git_dir :: string
  work_dir :: string
  index :: svcs_index_t

record svcs_commit_t =
  commit_tree_hash :: svcs_hash_t
  commit_parent_hash :: svcs_hash_t
  commit_author :: string
  commit_committer :: string
  commit_timestamp :: int
  commit_message :: string
  commit_signature :: string

subsection \<open>Object store (\<^verbatim>\<open>object.c\<close>)\<close>

definition get_object_path :: "svcs_repository_t \<Rightarrow> svcs_hash_t \<Rightarrow> string" where
  "get_object_path repo hash =
     (let hash_str = svcs_hash_to_string hash
      in git_dir repo @ ''/objects/'' @ take 2 hash_str @ ''/'' @ drop 2 hash_str)"

definition type_of_name :: "string \<Rightarrow> svcs_object_type_t option" where
  "type_of_name header =
     (if header = ''blob'' then Some SVCS_OBJ_BLOB
      else if header = ''tree'' then Some SVCS_OBJ_TREE
      else if header = ''commit'' then Some SVCS_OBJ_COMMIT
      else if header = ''tag'' then Some SVCS_OBJ_TAG
      else None)"

text \<open>
  The header parser of \<^verbatim>\<open>svcs_object_read\<close>, applied to the decompressed bytes: the end of the
  header is the first zero byte, the type name ends at the first space, the size is read by
  \<^verbatim>\<open>strtoul\<close>, and the bytes after the header are counted against it.
\<close>

definition parse_object :: "svcs_hash_t \<Rightarrow> byte list \<Rightarrow> svcs_error_t + svcs_object_t" where
  "parse_object hash data =
     (if (0::byte) \<notin> set data then Inl SVCS_ERROR_CORRUPT
      else
        let header_end = length (takeWhile (\<lambda>b. b \<noteq> 0) data);
            header = cstring data
        in if CHR '' '' \<notin> set header then Inl SVCS_ERROR_CORRUPT
           else
             let name = takeWhile (\<lambda>c. c \<noteq> CHR '' '') header;
                 object_size = strtoul10 (drop (length name + 1) header)
             in case type_of_name name of
                  None \<Rightarrow> Inl SVCS_ERROR_CORRUPT
                | Some t \<Rightarrow>
                    let content_size = length data - (header_end + 1)
                    in if content_size \<noteq> object_size then Inl SVCS_ERROR_CORRUPT
                       else Inr \<lparr> obj_type = t, obj_size = object_size, obj_hash = hash \<rparr>)"

definition svcs_object_read ::
  "platform \<Rightarrow> zlib \<Rightarrow> svcs_repository_t \<Rightarrow> svcs_hash_t \<Rightarrow> filesystem \<Rightarrow>
   (svcs_error_t + svcs_object_t) option" where
  "svcs_object_read os z repo hash fs =
     (let path = get_object_path repo hash
      in if \<not> svcs_file_exists fs path then Some (Inl SVCS_ERROR_NOT_FOUND)
         else case svcs_file_read os fs path of
                Inl err \<Rightarrow> Some (Inl err)
              | Inr compressed_data \<Rightarrow>
                  (case svcs_decompress z compressed_data of
                     None \<Rightarrow> None
                   | Some (Inl err) \<Rightarrow> Some (Inl err)
                   | Some (Inr data) \<Rightarrow> Some (parse_object hash data)))"

text \<open>
  \<^verbatim>\<open>svcs_object_write\<close>: the fan-out directory is created (the result of
  \<^verbatim>\<open>svcs_mkdir_recursive\<close> is not looked at); an existing file ends the function with
  \<^verbatim>\<open>SVCS_OK\<close>; otherwise the file receives the header and one zero byte, and nothing else.
\<close>

definition svcs_object_write ::
  "int \<Rightarrow> svcs_repository_t \<Rightarrow> svcs_object_t \<Rightarrow> filesystem \<Rightarrow> (svcs_error_t + unit) \<times> filesystem" where
  "svcs_object_write now repo obj fs =
     (let path = get_object_path repo (obj_hash obj);
          fs1 = (if CHR ''/'' \<in> set path then snd (svcs_mkdir_recursive now (dirname path) fs) else fs)
      in if svcs_file_exists fs1 path then (Inr (), fs1)
         else
           let header = type_str (obj_type obj) @ '' '' @ fmt_zu (obj_size obj)
           in if \<not> fopen_wb fs1 path then (Inl SVCS_ERROR_IO, fs1)
              else (Inr (), fs1(path \<mapsto> \<lparr> st_mtime = now, st_data = Some (bytes_of header @ [0]) \<rparr>)))"

subsection \<open>Status of the index (\<^verbatim>\<open>index.c\<close>)\<close>

text \<open>The body of the \<^verbatim>\<open>for\<close> loop of \<^verbatim>\<open>svcs_index_status\<close>, on the copy of one entry.\<close>

definition status_of_entry ::
  "platform \<Rightarrow> digest \<Rightarrow> filesystem \<Rightarrow> svcs_index_entry_t \<Rightarrow> svcs_index_entry_t" where
  "status_of_entry os sha3_256 fs entry =
     (if \<not> svcs_file_exists fs (entry_path entry)
      then entry\<lparr> entry_status := SVCS_STATUS_DELETED \<rparr>
      else
        let current_mtime = svcs_file_mtime fs (entry_path entry)
        in if current_mtime \<noteq> entry_mtime entry then
             (case svcs_hash_file os sha3_256 fs (entry_path entry) of
                Inr current_hash \<Rightarrow>
                  if svcs_hash_compare current_hash (entry_hash entry) \<noteq> 0
                  then entry\<lparr> entry_status := SVCS_STATUS_MODIFIED \<rparr>
                  else entry
              | Inl _ \<Rightarrow> entry)
           else entry)"

text \<open>
  \<^verbatim>\<open>svcs_index_status\<close> hands back the repository as it leaves it, and the array of copies.
\<close>

definition svcs_index_status ::
  "platform \<Rightarrow> digest \<Rightarrow> filesystem \<Rightarrow> svcs_repository_t \<Rightarrow>
   svcs_repository_t \<times> (svcs_error_t + svcs_index_entry_t list)" where
  "svcs_index_status os sha3_256 fs repo =
     (if length (entries (index repo)) = 0 then (repo, Inr [])
      else (repo, Inr (map (status_of_entry os sha3_256 fs) (entries (index repo)))))"

text \<open>
  The blob hash of a sequence of bytes: the digest of \<^verbatim>\<open>blob\<close>, a space, the number of bytes
  in decimal, a zero byte, and the bytes.
\<close>

definition blob_hash :: "digest \<Rightarrow> byte list \<Rightarrow> svcs_hash_t" where
  "blob_hash sha3_256 data = sha3_256 (bytes_of (''blob '' @ fmt_zu (length data)) @ [0] @ data)"

text \<open>
  The status the specification asks for: Deleted if the file no longer exists; Modified if
  its mtime differs from the recorded one and its recomputed blob hash differs from the
  recorded hash; the stored status otherwise. The recomputed blob hash of a regular file is
  that of its bytes. A path that has become a directory has no bytes to hash: where the
  platform reads a directory as an empty file the hash is that of no bytes, elsewhere there
  is none and the stored status stays.
\<close>

definition status_spec ::
  "platform \<Rightarrow> digest \<Rightarrow> filesystem \<Rightarrow> svcs_index_entry_t \<Rightarrow> svcs_file_status_t" where
  "status_spec os sha3_256 fs e =
     (case fs (entry_path e) of
        None \<Rightarrow> SVCS_STATUS_DELETED
      | Some n \<Rightarrow>
          (case st_data n of
             Some data \<Rightarrow>
               if st_mtime n \<noteq> entry_mtime e \<and> blob_hash sha3_256 data \<noteq> entry_hash e
               then SVCS_STATUS_MODIFIED
               else entry_status e
           | None \<Rightarrow>
               if st_mtime n \<noteq> entry_mtime e
                  \<and> dir_seek_end os (entry_path e) = 0 \<and> malloc_ok os 0
                  \<and> blob_hash sha3_256 [] \<noteq> entry_hash e
               then SVCS_STATUS_MODIFIED
               else entry_status e))"

text \<open>A small working tree and index to run \<^verbatim>\<open>svcs_index_status\<close> on.\<close>

definition status_example_fs :: filesystem where
  "status_example_fs =
     [''a.txt'' \<mapsto> \<lparr> st_mtime = 5, st_data = Some [1] \<rparr>,
      ''b.txt'' \<mapsto> \<lparr> st_mtime = 7, st_data = Some [2, 3] \<rparr>,
      ''c.txt'' \<mapsto> \<lparr> st_mtime = 9, st_data = Some [4] \<rparr>,
      ''d'' \<mapsto> \<lparr> st_mtime = 9, st_data = None \<rparr>]"

definition status_example_entry ::
  "string \<Rightarrow> svcs_hash_t \<Rightarrow> int \<Rightarrow> svcs_file_status_t \<Rightarrow> svcs_index_entry_t" where
  "status_example_entry p h t s =
     \<lparr> entry_path = p, entry_hash = h, entry_mode = 0x81A4,
       entry_mtime = t, entry_size = 0, entry_status = s \<rparr>"

definition status_example_repo :: svcs_repository_t where
  "status_example_repo =
     \<lparr> repo_path = ''.'', git_dir = ''./.svcs'', work_dir = ''.'',
       index = \<lparr> entries = [status_example_entry ''gone.txt'' svcs_hash_init 1 SVCS_STATUS_ADDED,
                             status_example_entry ''a.txt'' svcs_hash_init 3 SVCS_STATUS_ADDED,
                             status_example_entry ''b.txt'' svcs_hash_init 7 SVCS_STATUS_ADDED,
                             status_example_entry ''c.txt'' (blob_hash length_digest [4]) 3
                               SVCS_STATUS_ADDED,
                             status_example_entry ''d'' svcs_hash_init 3 SVCS_STATUS_ADDED],
                 index_timestamp = 0 \<rparr> \<rparr>"

subsection \<open>Commits (\<^verbatim>\<open>commit.c\<close>)\<close>

text \<open>
  The bytes the second loop of \<^verbatim>\<open>create_tree_from_index\<close> writes for one entry:
  \<^verbatim>\<open>sprintf(ptr, "%o %s", mode, path)\<close>, a zero byte, and the 32 bytes of the hash.
\<close>

definition tree_entry_bytes :: "svcs_index_entry_t \<Rightarrow> byte list" where
  "tree_entry_bytes entry =
     bytes_of (fmt_o (unat (entry_mode entry)) @ '' '' @ entry_path entry) @ [0]
     @ take SVCS_HASH_SIZE (entry_hash entry)"

text \<open>The loop itself, over the entries in the order of the index array.\<close>

fun tree_data :: "svcs_index_entry_t list \<Rightarrow> byte list" where
  "tree_data [] = []"
| "tree_data (entry # rest) = tree_entry_bytes entry @ tree_data rest"

definition create_tree_from_index ::
  "digest \<Rightarrow> int \<Rightarrow> svcs_repository_t \<Rightarrow> filesystem \<Rightarrow> (svcs_error_t + svcs_hash_t) \<times> filesystem" where
  "create_tree_from_index sha3_256 now repo fs =
     (if length (entries (index repo)) = 0 then (Inr svcs_hash_init, fs)
      else
        let data = tree_data (entries (index repo));
            tree_size = length data;
            tree_hash = svcs_hash_object sha3_256 SVCS_OBJ_TREE data;
            tree_obj = \<lparr> obj_type = SVCS_OBJ_TREE, obj_size = tree_size, obj_hash = tree_hash \<rparr>
        in case svcs_object_write now repo tree_obj fs of
             (Inl err, fs') \<Rightarrow> (Inl err, fs')
           | (Inr _, fs') \<Rightarrow> (Inr tree_hash, fs'))"

text \<open>
  Lines 73 to 105 of \<^verbatim>\<open>svcs_commit_create\<close>: the parent starts as the zero hash and is replaced
  only when \<^verbatim>\<open>HEAD\<close> begins with \<^verbatim>\<open>ref: \<close> and the file it names can be read and decoded.
\<close>

definition resolve_parent :: "platform \<Rightarrow> svcs_repository_t \<Rightarrow> filesystem \<Rightarrow> svcs_hash_t" where
  "resolve_parent os repo fs =
     (let parent_hash = svcs_hash_init;
          head_path = git_dir repo @ ''/HEAD''
      in case svcs_file_read os fs head_path of
           Inl _ \<Rightarrow> parent_hash
         | Inr head_data \<Rightarrow>
             let head_content = cstring head_data
             in if take 5 head_content = ''ref: '' then
                  let ref_name = cut_newline (drop 5 head_content);
                      ref_path = git_dir repo @ ''/'' @ ref_name
                  in case svcs_file_read os fs ref_path of
                       Inl _ \<Rightarrow> parent_hash
                     | Inr ref_data \<Rightarrow>
                         (case svcs_hash_from_string (cut_newline (cstring ref_data)) of
                            Inl _ \<Rightarrow> parent_hash
                          | Inr h \<Rightarrow> h)
                else parent_hash)"

text \<open>Lines 121 to 147: the text of the commit, with a parent line unless the parent is zero.\<close>

definition commit_content ::
  "svcs_hash_t \<Rightarrow> svcs_hash_t \<Rightarrow> string \<Rightarrow> string \<Rightarrow> string \<Rightarrow> string" where
  "commit_content tree_hash parent_hash author timestamp_str message =
     (let tree_hash_str = svcs_hash_to_string tree_hash;
          parent_hash_str = svcs_hash_to_string parent_hash;
          is_first_commit = list_all (\<lambda>i. parent_hash ! i = 0) [0..<SVCS_HASH_SIZE]
      in if is_first_commit then
           ''tree '' @ tree_hash_str @ [CHR 0x0A] @
           ''author '' @ author @ '' '' @ timestamp_str @ [CHR 0x0A] @
           ''committer '' @ author @ '' '' @ timestamp_str @ [CHR 0x0A] @
           [CHR 0x0A] @
           message @ [CHR 0x0A]
         else
           ''tree '' @ tree_hash_str @ [CHR 0x0A] @
           ''parent '' @ parent_hash_str @ [CHR 0x0A] @
           ''author '' @ author @ '' '' @ timestamp_str @ [CHR 0x0A] @
           ''committer '' @ author @ '' '' @ timestamp_str @ [CHR 0x0A] @
           [CHR 0x0A] @
           message @ [CHR 0x0A])"

text \<open>
  Lines 167 to 197: \<^verbatim>\<open>HEAD\<close> is read again; when it begins with \<^verbatim>\<open>ref: \<close> the new hash is
  written to the file it names. There is no \<^verbatim>\<open>else\<close> branch.
\<close>

definition update_ref ::
  "platform \<Rightarrow> int \<Rightarrow> svcs_repository_t \<Rightarrow> svcs_hash_t \<Rightarrow> filesystem \<Rightarrow> filesystem" where
  "update_ref os now repo commit_hash fs =
     (let commit_hash_str = svcs_hash_to_string commit_hash;
          head_path = git_dir repo @ ''/HEAD''
      in case svcs_file_read os fs head_path of
           Inl _ \<Rightarrow> fs
         | Inr head_data \<Rightarrow>
             let head_content = cstring head_data
             in if take 5 head_content = ''ref: '' then
                  let ref_name = cut_newline (drop 5 head_content);
                      ref_path = git_dir repo @ ''/'' @ ref_name;
                      fs1 = (if CHR ''/'' \<in> set ref_path
                             then snd (svcs_mkdir_recursive now (dirname ref_path) fs) else fs);
                      commit_with_newline = commit_hash_str @ [CHR 0x0A]
                  in snd (svcs_file_write now ref_path (bytes_of commit_with_newline) fs1)
                else fs)"

text \<open>
  \<^verbatim>\<open>svcs_commit_create\<close>. The clock is read once (\<open>now\<close>); \<open>strftime_s\<close> stands for libc's
  rendering of \<^verbatim>\<open>"%s"\<close>. The text is taken to fit the 4096 bytes of \<^verbatim>\<open>commit_content\<close>.
\<close>

definition svcs_commit_create ::
  "platform \<Rightarrow> digest \<Rightarrow> (int \<Rightarrow> string) \<Rightarrow> int \<Rightarrow> svcs_repository_t \<Rightarrow> string \<Rightarrow> string \<Rightarrow>
   filesystem \<Rightarrow> (svcs_error_t + svcs_hash_t) \<times> filesystem" where
  "svcs_commit_create os sha3_256 strftime_s now repo message author fs =
     (case create_tree_from_index sha3_256 now repo fs of
        (Inl err, fs1) \<Rightarrow> (Inl err, fs1)
      | (Inr tree_hash, fs1) \<Rightarrow>
          let parent_hash = resolve_parent os repo fs1;
              timestamp_str = strftime_s now @ '' +0000'';
              content = bytes_of (commit_content tree_hash parent_hash author timestamp_str message);
              commit_hash = svcs_hash_object sha3_256 SVCS_OBJ_COMMIT content;
              commit_obj = \<lparr> obj_type = SVCS_OBJ_COMMIT, obj_size = length content,
                             obj_hash = commit_hash \<rparr>
          in case svcs_object_write now repo commit_obj fs1 of
               (Inl err, fs2) \<Rightarrow> (Inl err, fs2)
             | (Inr _, fs2) \<Rightarrow> (Inr commit_hash, update_ref os now repo commit_hash fs2))"

text \<open>
  \<^verbatim>\<open>svcs_commit_read\<close>: the object is read for its type only; the record comes from \<^verbatim>\<open>calloc\<close>
  and receives the clock and three fixed strings.
\<close>

definition svcs_commit_read ::
  "platform \<Rightarrow> zlib \<Rightarrow> int \<Rightarrow> svcs_repository_t \<Rightarrow> svcs_hash_t \<Rightarrow> filesystem \<Rightarrow>
   (svcs_error_t + svcs_commit_t) option" where
  "svcs_commit_read os z now repo hash fs =
     (case svcs_object_read os z repo hash fs of
        None \<Rightarrow> None
      | Some (Inl err) \<Rightarrow> Some (Inl err)
      | Some (Inr obj) \<Rightarrow>
          if obj_type obj \<noteq> SVCS_OBJ_COMMIT then Some (Inl SVCS_ERROR_INVALID)
          else Some (Inr \<lparr> commit_tree_hash = replicate SVCS_HASH_SIZE 0,
                           commit_parent_hash = replicate SVCS_HASH_SIZE 0,
                           commit_author = ''Author'',
                           commit_committer = ''Committer'',
                           commit_timestamp = now,
                           commit_message = ''Commit message'',
                           commit_signature = [] \<rparr>))"

text \<open>
  The tree payload as the specification words it: the entries taken in sorted order by path
  bytes, each as octal mode, space, path, zero byte and the 32 raw hash bytes.
\<close>

fun path_le :: "string \<Rightarrow> string \<Rightarrow> bool" where
  "path_le [] _ = True"
| "path_le (c # cs) [] = False"
| "path_le (c # cs) (d # ds) =
     ((of_char c :: nat) < of_char d \<or> (c = d \<and> path_le cs ds))"

fun insert_by_path :: "svcs_index_entry_t \<Rightarrow> svcs_index_entry_t list \<Rightarrow> svcs_index_entry_t list" where
  "insert_by_path e [] = [e]"
| "insert_by_path e (x # xs) =
     (if path_le (entry_path e) (entry_path x) then e # x # xs else x # insert_by_path e xs)"

definition sort_by_path :: "svcs_index_entry_t list \<Rightarrow> svcs_index_entry_t list" where
  "sort_by_path es = foldr insert_by_path es []"

definition tree_payload_sorted :: "svcs_index_entry_t list \<Rightarrow> byte list" where
  "tree_payload_sorted es =
     concat (map (\<lambda>e. bytes_of (fmt_o (unat (entry_mode e))) @ [of_char CHR '' '']
                        @ bytes_of (entry_path e) @ [0] @ take 32 (entry_hash e))
                 (sort_by_path es))"

text \<open>The same payload with the entries in the order the index holds them.\<close>

definition tree_payload_in_order :: "svcs_index_entry_t list \<Rightarrow> byte list" where
  "tree_payload_in_order es =
     concat (map (\<lambda>e. bytes_of (fmt_o (unat (entry_mode e))) @ [of_char CHR '' '']
                        @ bytes_of (entry_path e) @ [0] @ take 32 (entry_hash e))
                 es)"

text \<open>
  A repository as \<^verbatim>\<open>svcs_repository_init\<close> leaves it, with a given content of \<^verbatim>\<open>HEAD\<close> and a
  given index, to run the model on.
\<close>

definition example_dir :: fnode where
  "example_dir = \<lparr> st_mtime = 0, st_data = None \<rparr>"

definition example_fs :: "byte list \<Rightarrow> filesystem" where
  "example_fs head =
     [''r'' \<mapsto> example_dir,
      ''r/.svcs'' \<mapsto> example_dir,
      ''r/.svcs/objects'' \<mapsto> example_dir,
      ''r/.svcs/refs'' \<mapsto> example_dir,
      ''r/.svcs/HEAD'' \<mapsto> \<lparr> st_mtime = 0, st_data = Some head \<rparr>,
      ''r/.svcs/index'' \<mapsto> \<lparr> st_mtime = 0, st_data = Some [] \<rparr>]"

definition example_repo :: "svcs_index_entry_t list \<Rightarrow> svcs_repository_t" where
  "example_repo es =
     \<lparr> repo_path = ''r'', git_dir = ''r/.svcs'', work_dir = ''r'',
       index = \<lparr> entries = es, index_timestamp = 0 \<rparr> \<rparr>"

text \<open>
  The file system after \<^verbatim>\<open>svcs_object_write\<close> has stored an object that was not there: the
  fan-out directory and the object file, which holds the header and its zero byte.
\<close>

definition written_object_fs ::
  "int \<Rightarrow> svcs_repository_t \<Rightarrow> svcs_object_t \<Rightarrow> filesystem \<Rightarrow> filesystem" where
  "written_object_fs now repo obj fs =
     fs(dirname (get_object_path repo (obj_hash obj)) \<mapsto> \<lparr> st_mtime = now, st_data = None \<rparr>,
        get_object_path repo (obj_hash obj) \<mapsto>
          \<lparr> st_mtime = now,
            st_data = Some (bytes_of (type_str (obj_type obj) @ '' '' @ fmt_zu (obj_size obj)) @ [0]) \<rparr>)"

text \<open>
  An object store holding one file that the toy codec can read back: the stored form of
  the header of an empty commit.
\<close>

definition example_commit_store :: filesystem where
  "example_commit_store =
     [get_object_path (example_repo []) svcs_hash_init \<mapsto>
        \<lparr> st_mtime = 0, st_data = Some (0x78 # bytes_of ''commit 0'' @ [0]) \<rparr>]"

text \<open>
  The text of a commit without a parent line, as the object format words it for a root
  commit: tree, author, committer, an empty line, the message.
\<close>

definition root_commit_text :: "svcs_hash_t \<Rightarrow> string \<Rightarrow> string \<Rightarrow> string \<Rightarrow> string" where
  "root_commit_text tree_hash author timestamp_str message =
     ''tree '' @ svcs_hash_to_string tree_hash @ [CHR 0x0A] @
     ''author '' @ author @ '' '' @ timestamp_str @ [CHR 0x0A] @
     ''committer '' @ author @ '' '' @ timestamp_str @ [CHR 0x0A] @
     [CHR 0x0A] @
     message @ [CHR 0x0A]"

text \<open>The content of a detached \<^verbatim>\<open>HEAD\<close>: the hex form of a commit hash and a newline.\<close>

definition detached_head :: "svcs_hash_t \<Rightarrow> byte list" where
  "detached_head p = bytes_of (svcs_hash_to_string p @ [CHR 0x0A])"

text \<open>Values to run \<^verbatim>\<open>svcs_commit_create\<close> and \<^verbatim>\<open>create_tree_from_index\<close> on.\<close>

definition example_parent :: svcs_hash_t where
  "example_parent = replicate 32 0xAB"

definition strftime_s_utc :: "int \<Rightarrow> string" where
  "strftime_s_utc t = (if t < 0 then ''-'' @ fmt_zu (nat (- t)) else fmt_zu (nat t))"

definition example_entry_b :: svcs_index_entry_t where
  "example_entry_b = status_example_entry ''b'' svcs_hash_init 0 SVCS_STATUS_ADDED"

definition example_entry_a :: svcs_index_entry_t where
  "example_entry_a = status_example_entry ''a'' svcs_hash_init 0 SVCS_STATUS_ADDED"

subsection \<open>Commit graph (\<^verbatim>\<open>dag.hpp\<close>, \<^verbatim>\<open>dag.cpp\<close>)\<close>

text \<open>
  The node table \<^verbatim>\<open>nodes\<close> owns every \<^verbatim>\<open>CommitNode\<close>, under the hex string of its hash. A
  pointer to a node (\<^verbatim>\<open>shared_ptr\<close> in \<^verbatim>\<open>parents\<close>, \<^verbatim>\<open>roots\<close>, \<^verbatim>\<open>heads\<close> and in the results,
  \<^verbatim>\<open>weak_ptr\<close> in \<^verbatim>\<open>children\<close>) is modelled by the key under which the table holds the node, and
  a change made through a pointer is a change of the table entry.
\<close>

record CommitNode =
  node_hash :: svcs_hash_t
  node_message :: string
  node_author :: string
  node_timestamp :: int
  parents :: "string list"
  children :: "string list"

type_synonym node_table = "string \<Rightarrow> CommitNode option"

record CommitDAG =
  nodes :: node_table
  roots :: "string list"
  heads :: "string list"

definition empty_dag :: CommitDAG where
  "empty_dag = \<lparr> nodes = Map.empty, roots = [], heads = [] \<rparr>"

definition hash_string :: "CommitNode \<Rightarrow> string" where
  "hash_string n = svcs_hash_to_string (node_hash n)"

text \<open>
  The loop ``link to parents'' of \<^verbatim>\<open>add_commit\<close>: a parent hash that the table holds is
  appended to the new node's \<^verbatim>\<open>parents\<close>, and the new node to that parent's \<^verbatim>\<open>children\<close>; a
  parent hash the table does not hold is passed over.
\<close>

fun link_parents ::
  "string \<Rightarrow> svcs_hash_t list \<Rightarrow> string list \<Rightarrow> node_table \<Rightarrow> string list \<times> node_table" where
  "link_parents hash_str [] ps ns = (ps, ns)"
| "link_parents hash_str (parent_hash # rest) ps ns =
     (let parent_str = svcs_hash_to_string parent_hash
      in case ns parent_str of
           None \<Rightarrow> link_parents hash_str rest ps ns
         | Some parent \<Rightarrow>
             link_parents hash_str rest (ps @ [parent_str])
               (ns(parent_str \<mapsto> parent\<lparr> children := children parent @ [hash_str] \<rparr>)))"

text \<open>\<^verbatim>\<open>add_commit\<close> always returns \<^verbatim>\<open>SVCS_OK\<close>; the model returns the graph it leaves.\<close>

definition add_commit ::
  "CommitDAG \<Rightarrow> svcs_hash_t \<Rightarrow> string \<Rightarrow> string \<Rightarrow> int \<Rightarrow> svcs_hash_t list \<Rightarrow> CommitDAG" where
  "add_commit dag hash message author timestamp parent_hashes =
     (let hash_str = svcs_hash_to_string hash
      in if nodes dag hash_str \<noteq> None then dag
         else
           case link_parents hash_str parent_hashes [] (nodes dag) of
             (ps, ns) \<Rightarrow>
               let commit_node = \<lparr> node_hash = hash, node_message = message,
                                    node_author = author, node_timestamp = timestamp,
                                    parents = ps, children = [] \<rparr>;
                   ns' = ns(hash_str \<mapsto> commit_node);
                   roots' = (if parents commit_node = [] then roots dag @ [hash_str] else roots dag);
                   heads' = fold remove1 (parents commit_node) (heads dag);
                   heads'' = (if children commit_node = [] then heads' @ [hash_str] else heads')
               in \<lparr> nodes = ns', roots = roots', heads = heads'' \<rparr>)"

text \<open>
  \<^verbatim>\<open>topological_sort\<close>. The first loop runs over the table in the order of the
  \<^verbatim>\<open>unordered_map\<close>, which the language leaves open: the keys in that order are the argument
  \<open>order\<close>. \<^verbatim>\<open>in_degree\<close> is a map with default 0, the queue and the result are lists of
  node pointers.
\<close>

fun init_in_degree ::
  "node_table \<Rightarrow> string list \<Rightarrow> (string \<Rightarrow> int) \<Rightarrow> string list \<Rightarrow> (string \<Rightarrow> int) \<times> string list" where
  "init_in_degree ns [] in_degree queue = (in_degree, queue)"
| "init_in_degree ns (hash # rest) in_degree queue =
     (case ns hash of
        None \<Rightarrow> init_in_degree ns rest in_degree queue
      | Some node \<Rightarrow>
          let in_degree' = in_degree(hash := int (length (parents node)))
          in if in_degree' hash = 0
             then init_in_degree ns rest in_degree' (queue @ [hash])
             else init_in_degree ns rest in_degree' queue)"

text \<open>The inner loop over \<^verbatim>\<open>current->children\<close>; a pointer that does not lock is passed over.\<close>

fun visit_children ::
  "node_table \<Rightarrow> string list \<Rightarrow> (string \<Rightarrow> int) \<Rightarrow> string list \<Rightarrow> (string \<Rightarrow> int) \<times> string list" where
  "visit_children ns [] in_degree queue = (in_degree, queue)"
| "visit_children ns (weak_child # rest) in_degree queue =
     (case ns weak_child of
        None \<Rightarrow> visit_children ns rest in_degree queue
      | Some child \<Rightarrow>
          let child_hash = hash_string child;
              in_degree' = in_degree(child_hash := in_degree child_hash - 1)
          in if in_degree' child_hash = 0
             then visit_children ns rest in_degree' (queue @ [weak_child])
             else visit_children ns rest in_degree' queue)"

text \<open>
  The \<^verbatim>\<open>while (!queue.empty())\<close> loop. Its termination rests on the shape of the graph, so it
  is a partial function and the theorem on it shows that it returns.
\<close>

partial_function (option) kahn_loop ::
  "node_table \<Rightarrow> string list \<Rightarrow> (string \<Rightarrow> int) \<Rightarrow> string list \<Rightarrow> string list option" where
  "kahn_loop ns queue in_degree result =
     (case queue of
        [] \<Rightarrow> Some result
      | current # rest \<Rightarrow>
          (case visit_children ns (case ns current of Some n \<Rightarrow> children n | None \<Rightarrow> [])
                  in_degree rest of
             (in_degree', queue') \<Rightarrow> kahn_loop ns queue' in_degree' (result @ [current])))"

declare kahn_loop.simps [code]

definition topological_sort :: "CommitDAG \<Rightarrow> string list \<Rightarrow> string list option" where
  "topological_sort dag order =
     (case init_in_degree (nodes dag) order (\<lambda>_. 0) [] of
        (in_degree, queue) \<Rightarrow> kahn_loop (nodes dag) queue in_degree [])"

text \<open>The graphs that sequences of \<^verbatim>\<open>add_commit\<close> calls build from the empty graph.\<close>

inductive built :: "CommitDAG \<Rightarrow> bool" where
  built_empty: "built empty_dag"
| built_add: "built dag \<Longrightarrow> built (add_commit dag hash message author timestamp parent_hashes)"

text \<open>\<open>a\<close> stands before \<open>b\<close> in the list \<open>xs\<close>.\<close>

fun stands_before :: "'a list \<Rightarrow> 'a \<Rightarrow> 'a \<Rightarrow> bool" where
  "stands_before [] a b = False"
| "stands_before (x # xs) a b = ((x = a \<and> b \<in> set xs) \<or> stands_before xs a b)"

text \<open>
  The shape of a node table that \<^verbatim>\<open>add_commit\<close> maintains: finitely many nodes, each under the
  hex string of its hash, with parents and children in the table; \<open>c\<close> is as often a child of
  \<open>p\<close> as \<open>p\<close> is a parent of \<open>c\<close>; and a rank that grows from parent to child.
\<close>

definition parents_of :: "node_table \<Rightarrow> string \<Rightarrow> string list" where
  "parents_of ns k = (case ns k of Some n \<Rightarrow> parents n | None \<Rightarrow> [])"

definition children_of :: "node_table \<Rightarrow> string \<Rightarrow> string list" where
  "children_of ns k = (case ns k of Some n \<Rightarrow> children n | None \<Rightarrow> [])"

definition wf_table :: "node_table \<Rightarrow> bool" where
  "wf_table ns \<longleftrightarrow>
     finite (dom ns) \<and>
     (\<forall>k n. ns k = Some n \<longrightarrow> hash_string n = k) \<and>
     (\<forall>k \<in> dom ns. set (parents_of ns k) \<subseteq> dom ns \<and> set (children_of ns k) \<subseteq> dom ns) \<and>
     (\<forall>p \<in> dom ns. \<forall>c \<in> dom ns.
        count_list (children_of ns p) c = count_list (parents_of ns c) p) \<and>
     (\<exists>rank :: string \<Rightarrow> nat. \<forall>c \<in> dom ns. \<forall>p \<in> set (parents_of ns c). rank p < rank c)"

text \<open>
  The state of the \<^verbatim>\<open>while\<close> loop of \<^verbatim>\<open>topological_sort\<close>: \<^verbatim>\<open>in_degree\<close> of a node is the
  number of its parents not yet in the result, the nodes of in-degree 0 are those in the
  result or in the queue, and in the result every node stands behind its parents.
\<close>

definition remaining :: "node_table \<Rightarrow> string list \<Rightarrow> string \<Rightarrow> int" where
  "remaining ns r c = int (length (filter (\<lambda>p. p \<notin> set r) (parents_of ns c)))"

definition kahn_inv :: "node_table \<Rightarrow> string list \<Rightarrow> (string \<Rightarrow> int) \<Rightarrow> string list \<Rightarrow> bool" where
  "kahn_inv ns q d r \<longleftrightarrow>
     distinct (r @ q) \<and> set (r @ q) \<subseteq> dom ns \<and>
     (\<forall>c \<in> dom ns. d c = remaining ns r c) \<and>
     (\<forall>c \<in> dom ns. c \<in> set (r @ q) \<longleftrightarrow> d c = 0) \<and>
     (\<forall>c \<in> set r. \<forall>p \<in> set (parents_of ns c). stands_before r p c)"

text \<open>The parents that \<^verbatim>\<open>add_commit\<close> links: the hashes the table holds, in the order given.\<close>

definition linked :: "node_table \<Rightarrow> svcs_hash_t list \<Rightarrow> string list" where
  "linked ns phs = filter (\<lambda>k. ns k \<noteq> None) (map svcs_hash_to_string phs)"

text \<open>Three commits for a run: a root, a child of it, and a merge of both.\<close>

definition example_hash :: "byte \<Rightarrow> svcs_hash_t" where
  "example_hash b = replicate 32 b"

definition example_dag :: CommitDAG where
  "example_dag =
     add_commit
       (add_commit
          (add_commit empty_dag (example_hash 1) ''Initial commit'' ''Author'' 100 [])
          (example_hash 2) ''Second commit'' ''Author'' 200 [example_hash 1])
       (example_hash 3) ''Merge'' ''Author'' 300 [example_hash 2, example_hash 1]"

subsection \<open>Notions used in the statements\<close>


text \<open>The result of a merge without conflicts, with the lines \<open>ls\<close>.\<close>

definition clean_merge :: "string list \<Rightarrow> ThreeWayMergeResult" where
  "clean_merge ls =
     \<lparr> merged_content = join_lines ls, conflicts = [], has_conflicts = False,
       success = True, error_message = [] \<rparr>"

section \<open>Verification\<close>

subsection \<open>Hex encoding of hashes\<close>

lemma lt16_cases: "(d::nat) < 16 \<Longrightarrow> d \<in> {0,1,2,3,4,5,6,7,8,9,10,11,12,13,14,15}"
  by simp arith

lemma xdigit_val_digit: "d < 16 \<Longrightarrow> xdigit_val (digit_chars ! d) = Some d"
  by (drule lt16_cases) (auto simp: xdigit_val_def digit_chars_def)

lemma digit_not_space: "d < 16 \<Longrightarrow> \<not> isspace (digit_chars ! d)"
  by (drule lt16_cases) (auto simp: isspace_def digit_chars_def)

lemma digit_not_sign:
  "d < 16 \<Longrightarrow> digit_chars ! d \<noteq> CHR ''-'' \<and> digit_chars ! d \<noteq> CHR ''+'' \<and> digit_chars ! d \<noteq> NUL"
  by (drule lt16_cases) (auto simp: digit_chars_def NUL_def)

lemma strtol16_two_digits:
  assumes "d1 < 16" "d2 < 16"
  shows "strtol16 [digit_chars ! d1, digit_chars ! d2] = int (16 * d1 + d2)"
  using assms digit_not_sign[of d1]
  by (simp add: strtol16_def digit_not_space isxdigit_def xdigit_val_digit LONG_MAX_def LONG_MIN_def)

lemma unat_byte_lt: "unat (b :: byte) < 256"
  using unsigned_less[of b, where 'a = nat] by simp

lemma strtol16_fmt_02x: "word_of_int (strtol16 (fmt_02x b)) = (b :: byte)"
proof -
  have lt: "unat b < 256" by (rule unat_byte_lt)
  then have "unat b div 16 < 16" "unat b mod 16 < 16" by auto
  then have "strtol16 (fmt_02x b) = int (16 * (unat b div 16) + unat b mod 16)"
    unfolding fmt_02x_def by (rule strtol16_two_digits)
  also have "\<dots> = int (unat b)" by simp
  finally show ?thesis by simp
qed

lemma fmt_02x_chars: "set (fmt_02x b) \<subseteq> set digit_chars"
proof -
  have "unat b < 256" by (rule unat_byte_lt)
  then have "unat b div 16 < length digit_chars" "unat b mod 16 < length digit_chars"
    by (auto simp: digit_chars_def)
  then show ?thesis unfolding fmt_02x_def by (simp del: length_greater_0_conv)
qed

lemma length_fmt_02x: "length (fmt_02x b) = 2"
  by (simp add: fmt_02x_def)

lemma length_concat_const:
  "(\<And>x. x \<in> set xs \<Longrightarrow> length (f x) = k) \<Longrightarrow> length (concat (map f xs)) = k * length xs"
  by (induction xs) auto

lemma length_hash_to_string: "length (svcs_hash_to_string h) = 64"
  unfolding svcs_hash_to_string_def SVCS_HASH_SIZE_def
  by (subst length_concat_const[where k = 2]) (simp_all add: length_fmt_02x)

lemma set_hash_to_string: "set (svcs_hash_to_string h) \<subseteq> set digit_chars"
  unfolding svcs_hash_to_string_def using fmt_02x_chars by auto

lemma NUL_notin_digits: "NUL \<notin> set digit_chars"
  by (simp add: digit_chars_def NUL_def)

lemma strlen_no_NUL: "NUL \<notin> set s \<Longrightarrow> strlen s = length s"
  unfolding strlen_def by (induction s) auto

lemma strlen_hash_to_string: "strlen (svcs_hash_to_string h) = 64"
  using set_hash_to_string[of h] NUL_notin_digits
  by (subst strlen_no_NUL) (auto simp: length_hash_to_string)

lemma nth_concat_pairs:
  assumes "\<And>x. length (f x) = 2" "i < length xs"
  shows "concat (map f xs) ! (i * 2) = f (xs ! i) ! 0 \<and> concat (map f xs) ! (i * 2 + 1) = f (xs ! i) ! 1"
  using assms(2)
proof (induction xs arbitrary: i)
  case Nil then show ?case by simp
next
  case (Cons x xs)
  show ?case
  proof (cases i)
    case 0
    then show ?thesis using assms(1)[of x] by (simp add: nth_append)
  next
    case (Suc j)
    then have "j < length xs" using Cons.prems by simp
    from Cons.IH[OF this] show ?thesis using assms(1)[of x] Suc by (simp add: nth_append)
  qed
qed

lemma pair_of_fmt: "[fmt_02x b ! 0, fmt_02x b ! 1] = fmt_02x b"
  by (simp add: fmt_02x_def)

lemma hash_roundtrip:
  assumes "length h = 32"
  shows "svcs_hash_from_string (svcs_hash_to_string h) = Inr h"
proof -
  let ?s = "svcs_hash_to_string h"
  have pair: "[?s ! (i * 2), ?s ! (i * 2 + 1)] = fmt_02x (h ! i)" if "i < 32" for i
  proof -
    have "?s = concat (map (\<lambda>i. fmt_02x (h ! i)) [0..<32])"
      by (simp add: svcs_hash_to_string_def SVCS_HASH_SIZE_def)
    moreover have "i < length [0..<32::nat]" using that by simp
    ultimately show ?thesis
      using nth_concat_pairs[of "\<lambda>i. fmt_02x (h ! i)" i "[0..<32]", OF length_fmt_02x]
        pair_of_fmt[of "h ! i"] that
      by (simp del: upt_Suc)
  qed
  have "map (\<lambda>i. (word_of_int (strtol16 [?s ! (i * 2), ?s ! (i * 2 + 1)]) :: byte)) [0..<32]
        = map (\<lambda>i. h ! i) [0..<32]"
  proof (rule map_cong)
    fix x assume "x \<in> set [0..<32::nat]"
    then have "x < 32" by simp
    from pair[OF this]
    show "(word_of_int (strtol16 [?s ! (x * 2), ?s ! (x * 2 + 1)]) :: byte) = h ! x"
      by (simp only: strtol16_fmt_02x)
  qed simp
  also have "\<dots> = h" using assms map_nth[of h] by simp
  finally show ?thesis
    by (simp add: svcs_hash_from_string_def strlen_hash_to_string SVCS_HASH_HEX_SIZE_def
        SVCS_HASH_SIZE_def)
qed

lemma hash_from_string_accepts:
  assumes "strlen s = 64"
  shows "\<exists>h'. svcs_hash_from_string s = Inr h' \<and> length h' = 32"
  using assms by (simp add: svcs_hash_from_string_def SVCS_HASH_HEX_SIZE_def SVCS_HASH_SIZE_def)

text \<open>
  Claim C6, as the code has it. For every 32-byte hash \<open>h\<close>, decoding the encoding of \<open>h\<close>
  gives \<open>h\<close> back, and the encoding is 64 characters, each a lowercase hexadecimal digit.
  \<^verbatim>\<open>svcs_hash_from_string\<close> fails with \<^verbatim>\<open>SVCS_ERROR_INVALID\<close> on every string whose length is
  not 64. A string of length 64 is always accepted, whatever its characters: the characters
  are never checked, each pair is decoded by \<^verbatim>\<open>strtol\<close>.
\<close>

theorem hex_round_trip_length_check:
  "(length h = 32 \<longrightarrow>
      svcs_hash_from_string (svcs_hash_to_string h) = Inr h
      \<and> length (svcs_hash_to_string h) = 64
      \<and> set (svcs_hash_to_string h) \<subseteq> set ''0123456789abcdef'')
   \<and> (strlen s \<noteq> 64 \<longrightarrow> svcs_hash_from_string s = Inl SVCS_ERROR_INVALID)
   \<and> (strlen s = 64 \<longrightarrow> (\<exists>h'. svcs_hash_from_string s = Inr h' \<and> length h' = 32))"
proof (intro conjI impI)
  assume "length h = 32"
  then show "svcs_hash_from_string (svcs_hash_to_string h) = Inr h" by (rule hash_roundtrip)
next
  show "length (svcs_hash_to_string h) = 64" by (rule length_hash_to_string)
next
  show "set (svcs_hash_to_string h) \<subseteq> set ''0123456789abcdef''"
    using set_hash_to_string[of h] by (simp add: digit_chars_def)
next
  assume "strlen s \<noteq> 64"
  then show "svcs_hash_from_string s = Inl SVCS_ERROR_INVALID"
    by (simp add: svcs_hash_from_string_def SVCS_HASH_HEX_SIZE_def)
next
  assume "strlen s = 64"
  then show "\<exists>h'. svcs_hash_from_string s = Inr h' \<and> length h' = 32"
    by (rule hash_from_string_accepts)
qed

theorem hex_round_trip_length_check_witness:
  "length (replicate 32 (0::byte)) = 32
   \<and> svcs_hash_from_string (svcs_hash_to_string (replicate 32 0)) = Inr (replicate 32 0)
   \<and> length (svcs_hash_to_string (replicate 32 0)) = 64
   \<and> strlen ''abc'' \<noteq> 64
   \<and> svcs_hash_from_string ''abc'' = Inl SVCS_ERROR_INVALID
   \<and> strlen (replicate 64 CHR ''7'') = 64
   \<and> (\<exists>h'. svcs_hash_from_string (replicate 64 CHR ''7'') = Inr h' \<and> length h' = 32)"
proof -
  have a: "strlen ''abc'' \<noteq> 64" by (simp add: strlen_def NUL_def)
  have b: "strlen (replicate 64 CHR ''7'') = 64" by (simp add: strlen_def NUL_def)
  show ?thesis
    using hex_round_trip_length_check[of "replicate 32 0" "''abc''"]
      hex_round_trip_length_check[of "replicate 32 0" "replicate 64 CHR ''7''"] a b
    by simp
qed

text \<open>
  The claim as written fails: the string of 64 letters \<open>z\<close> holds no hexadecimal digit, and
  \<^verbatim>\<open>svcs_hash_from_string\<close> returns the zero hash for it instead of an error.
\<close>

theorem hash_from_string_non_hex_counterexample:
  "\<not> isxdigit CHR ''z''
   \<and> svcs_hash_from_string (replicate 64 CHR ''z'') = Inr (replicate 32 0)"
proof -
  have z: "strtol16 [CHR ''z'', CHR ''z''] = 0"
    by (simp add: strtol16_def isspace_def isxdigit_def xdigit_val_def LONG_MAX_def LONG_MIN_def)
  have len: "strlen (replicate 64 CHR ''z'') = 64"
    by (simp add: strlen_no_NUL NUL_def)
  have "map (\<lambda>i. (word_of_int (strtol16 [replicate 64 CHR ''z'' ! (i * 2),
              replicate 64 CHR ''z'' ! (i * 2 + 1)]) :: byte)) [0..<32]
        = map (\<lambda>i. 0) [0..<32]"
    by (rule map_cong) (simp_all add: z del: upt_Suc)
  also have "\<dots> = replicate 32 0"
    by (simp add: map_replicate_const)
  finally show ?thesis
    by (simp add: svcs_hash_from_string_def len SVCS_HASH_HEX_SIZE_def SVCS_HASH_SIZE_def
        isxdigit_def xdigit_val_def)
qed

subsection \<open>The hash state is overwritten by each update\<close>

lemma hash_update_nonempty:
  "data \<noteq> [] \<Longrightarrow> svcs_hash_update sha3_256 h data = sha3_256 data"
  by (simp add: svcs_hash_update_def EVP_DigestFinal_ex_def EVP_DigestUpdate_def
      EVP_DigestInit_ex_def)

text \<open>
  Claim C9. For every hash state \<open>h\<close> and non-empty byte sequences \<open>a\<close> and \<open>b\<close>, the call
  \<^verbatim>\<open>svcs_hash_update(h, a)\<close> leaves the digest of \<open>a\<close> in \<open>h\<close>, and the following
  \<^verbatim>\<open>svcs_hash_update(h, b)\<close> leaves the digest of \<open>b\<close> alone there: the first chunk has no
  influence, and whenever the digests of \<open>b\<close> and of \<open>a\<close> followed by \<open>b\<close> differ, the state
  is not the digest of the concatenation.
\<close>

theorem hash_update_not_incremental:
  assumes "a \<noteq> []" and "b \<noteq> []"
  shows "svcs_hash_update sha3_256 h a = sha3_256 a
         \<and> svcs_hash_update sha3_256 (svcs_hash_update sha3_256 h a) b = sha3_256 b
         \<and> (sha3_256 (a @ b) \<noteq> sha3_256 b \<longrightarrow>
              svcs_hash_update sha3_256 (svcs_hash_update sha3_256 h a) b \<noteq> sha3_256 (a @ b))"
  using assms by (simp add: hash_update_nonempty)

theorem hash_update_not_incremental_witness:
  "[1::byte] \<noteq> [] \<and> [2::byte] \<noteq> []
   \<and> length_digest ([1] @ [2]) \<noteq> length_digest [2]
   \<and> svcs_hash_update length_digest (svcs_hash_update length_digest svcs_hash_init [1]) [2]
       = length_digest [2]
   \<and> svcs_hash_update length_digest (svcs_hash_update length_digest svcs_hash_init [1]) [2]
       \<noteq> length_digest ([1] @ [2])"
proof -
  have d: "length_digest ([1] @ [2]) \<noteq> length_digest [2]"
    by (simp add: length_digest_def)
  have n1: "[1::byte] \<noteq> []" and n2: "[2::byte] \<noteq> []" by simp_all
  note t = hash_update_not_incremental[OF n1 n2, of length_digest svcs_hash_init]
  show ?thesis using t d n1 n2 by blast
qed

subsection \<open>Compression round trip\<close>








subsection \<open>Three-way merge: the identity cases\<close>

lemma merge_loop_ours_changed:
  assumes "length x = length b" and "i \<le> length b"
  shows "merge_loop b x b i i i m cs hc = (m @ drop i x, cs, hc)"
  using assms(2)
proof (induction "length b - i" arbitrary: i m)
  case 0
  then have "i = length b" by simp
  then show ?case using assms(1) by (subst merge_loop.simps) simp
next
  case (Suc n)
  then have lt: "i < length b" by arith
  then have ltx: "i < length x" using assms(1) by simp
  have IH: "merge_loop b x b (Suc i) (Suc i) (Suc i) (m @ [x ! i]) cs hc
            = ((m @ [x ! i]) @ drop (Suc i) x, cs, hc)"
    using Suc.hyps(2) lt by (intro Suc.hyps(1)) arith+
  have d: "x ! i # drop (Suc i) x = drop i x"
    using ltx by (simp add: Cons_nth_drop_Suc)
  show ?case
  proof (cases "b ! i = x ! i")
    case True
    show ?thesis
      by (subst merge_loop.simps) (simp add: lt ltx True IH d)
  next
    case False
    then have "x ! i \<noteq> b ! i" by simp
    with False show ?thesis
      by (subst merge_loop.simps) (simp add: lt ltx IH d)
  qed
qed

lemma merge_loop_theirs_changed:
  assumes "length y = length b" and "i \<le> length b"
  shows "merge_loop b b y i i i m cs hc = (m @ drop i y, cs, hc)"
  using assms(2)
proof (induction "length b - i" arbitrary: i m)
  case 0
  then have "i = length b" by simp
  then show ?case using assms(1) by (subst merge_loop.simps) simp
next
  case (Suc n)
  then have lt: "i < length b" by arith
  then have lty: "i < length y" using assms(1) by simp
  have IH: "merge_loop b b y (Suc i) (Suc i) (Suc i) (m @ [y ! i]) cs hc
            = ((m @ [y ! i]) @ drop (Suc i) y, cs, hc)"
    using Suc.hyps(2) lt by (intro Suc.hyps(1)) arith+
  have d: "y ! i # drop (Suc i) y = drop i y"
    using lty by (simp add: Cons_nth_drop_Suc)
  show ?case
  proof (cases "b ! i = y ! i")
    case True
    show ?thesis
      by (subst merge_loop.simps) (simp add: lt lty True IH d)
  next
    case False
    then show ?thesis
      by (subst merge_loop.simps) (simp add: lt lty IH d)
  qed
qed

lemma merge_loop_unfold:
  assumes "c \<longleftrightarrow> bi < length b \<or> oi < length x \<or> ti < length y"
    and "c1 \<longleftrightarrow> bi < length b \<and> oi < length x \<and> ti < length y
           \<and> b ! bi = x ! oi \<and> x ! oi = y ! ti"
    and "c2 \<longleftrightarrow> bi < length b \<and> oi < length x \<and> b ! bi = x ! oi \<and> ti < length y"
    and "c3 \<longleftrightarrow> bi < length b \<and> ti < length y \<and> b ! bi = y ! ti \<and> oi < length x"
  shows "merge_loop b x y bi oi ti m cs hc =
     (if c then
        if c1 then merge_loop b x y (bi + 1) (oi + 1) (ti + 1) (m @ [x ! oi]) cs hc
        else if c2 then merge_loop b x y (bi + 1) (oi + 1) (ti + 1) (m @ [y ! ti]) cs hc
        else if c3 then merge_loop b x y (bi + 1) (oi + 1) (ti + 1) (m @ [x ! oi]) cs hc
        else merge_loop b x y (bi + 1) (oi + 1) (ti + 1)
               (m @ conflict_markers x y oi ti) (cs @ [make_conflict x y oi ti]) True
      else (m, cs, hc))"
  unfolding assms by (rule merge_loop.simps)

lemma merge_loop_keeps_conflict:
  "hc \<Longrightarrow> snd (snd (merge_loop b x y bi oi ti m cs hc))"
proof (induction b x y bi oi ti m cs hc rule: merge_loop.induct)
  case (1 b x y bi oi ti m cs hc)
  define c where "c \<longleftrightarrow> bi < length b \<or> oi < length x \<or> ti < length y"
  define c1 where "c1 \<longleftrightarrow> bi < length b \<and> oi < length x \<and> ti < length y
           \<and> b ! bi = x ! oi \<and> x ! oi = y ! ti"
  define c2 where "c2 \<longleftrightarrow> bi < length b \<and> oi < length x \<and> b ! bi = x ! oi \<and> ti < length y"
  define c3 where "c3 \<longleftrightarrow> bi < length b \<and> ti < length y \<and> b ! bi = y ! ti \<and> oi < length x"
  note u = merge_loop_unfold[OF c_def c1_def c2_def c3_def]
  note IH = "1.IH"[folded c_def c1_def c2_def c3_def]
  show ?case
  proof (cases c)
    case False
    then show ?thesis using "1.prems" by (simp add: u)
  next
    case c: True
    consider c1 | "\<not> c1" c2 | "\<not> c1" "\<not> c2" c3 | "\<not> c1" "\<not> c2" "\<not> c3" by blast
    then show ?thesis
    proof cases
      case 1
      then show ?thesis using IH(1)[OF c 1 "1.prems"] c by (simp add: u)
    next
      case 2
      then show ?thesis using IH(2)[OF c 2 "1.prems"] c by (simp add: u)
    next
      case 3
      then show ?thesis using IH(3)[OF c 3 "1.prems"] c by (simp add: u)
    next
      case 4
      then show ?thesis using IH(4)[OF c 4] c by (simp add: u)
    qed
  qed
qed


lemma merge_loop_length_mismatch_ours:
  assumes "length x \<noteq> length b" and "i \<le> min (length b) (length x)"
  shows "snd (snd (merge_loop b x b i i i m cs hc))"
  using assms(2)
proof (induction "min (length b) (length x) - i" arbitrary: i m cs hc)
  case 0
  define c where "c \<longleftrightarrow> i < length b \<or> i < length x \<or> i < length b"
  define c1 where "c1 \<longleftrightarrow> i < length b \<and> i < length x \<and> i < length b
           \<and> b ! i = x ! i \<and> x ! i = b ! i"
  define c2 where "c2 \<longleftrightarrow> i < length b \<and> i < length x \<and> b ! i = x ! i \<and> i < length b"
  define c3 where "c3 \<longleftrightarrow> i < length b \<and> i < length b \<and> b ! i = b ! i \<and> i < length x"
  note u = merge_loop_unfold[OF c_def c1_def c2_def c3_def]
  from 0 have i: "i = min (length b) (length x)" by simp
  then have "\<not> (i < length b \<and> i < length x)" and "i < length b \<or> i < length x"
    using assms(1) by auto
  then have c and "\<not> c1" and "\<not> c2" and "\<not> c3"
    unfolding c_def c1_def c2_def c3_def by blast+
  then show ?case
    by (simp add: u merge_loop_keeps_conflict)
next
  case (Suc n)
  define c where "c \<longleftrightarrow> i < length b \<or> i < length x \<or> i < length b"
  define c1 where "c1 \<longleftrightarrow> i < length b \<and> i < length x \<and> i < length b
           \<and> b ! i = x ! i \<and> x ! i = b ! i"
  define c2 where "c2 \<longleftrightarrow> i < length b \<and> i < length x \<and> b ! i = x ! i \<and> i < length b"
  define c3 where "c3 \<longleftrightarrow> i < length b \<and> i < length b \<and> b ! i = b ! i \<and> i < length x"
  note u = merge_loop_unfold[OF c_def c1_def c2_def c3_def]
  from Suc have "i + 1 \<le> min (length b) (length x)"
    and "n = min (length b) (length x) - (i + 1)"
    by arith+
  then have IH: "\<And>m cs hc. snd (snd (merge_loop b x b (i + 1) (i + 1) (i + 1) m cs hc))"
    using Suc.hyps(1) by blast
  have c using Suc.hyps(2) unfolding c_def by arith
  then show ?case
    by (simp add: u IH del: One_nat_def add_Suc_right)
qed

lemma merge_loop_length_mismatch_theirs:
  assumes "length y \<noteq> length b" and "i \<le> min (length b) (length y)"
  shows "snd (snd (merge_loop b b y i i i m cs hc))"
  using assms(2)
proof (induction "min (length b) (length y) - i" arbitrary: i m cs hc)
  case 0
  define c where "c \<longleftrightarrow> i < length b \<or> i < length b \<or> i < length y"
  define c1 where "c1 \<longleftrightarrow> i < length b \<and> i < length b \<and> i < length y
           \<and> b ! i = b ! i \<and> b ! i = y ! i"
  define c2 where "c2 \<longleftrightarrow> i < length b \<and> i < length b \<and> b ! i = b ! i \<and> i < length y"
  define c3 where "c3 \<longleftrightarrow> i < length b \<and> i < length y \<and> b ! i = y ! i \<and> i < length b"
  note u = merge_loop_unfold[OF c_def c1_def c2_def c3_def]
  from 0 have i: "i = min (length b) (length y)" by simp
  then have "\<not> (i < length b \<and> i < length y)" and "i < length b \<or> i < length y"
    using assms(1) by auto
  then have c and "\<not> c1" and "\<not> c2" and "\<not> c3"
    unfolding c_def c1_def c2_def c3_def by blast+
  then show ?case
    by (simp add: u merge_loop_keeps_conflict)
next
  case (Suc n)
  define c where "c \<longleftrightarrow> i < length b \<or> i < length b \<or> i < length y"
  define c1 where "c1 \<longleftrightarrow> i < length b \<and> i < length b \<and> i < length y
           \<and> b ! i = b ! i \<and> b ! i = y ! i"
  define c2 where "c2 \<longleftrightarrow> i < length b \<and> i < length b \<and> b ! i = b ! i \<and> i < length y"
  define c3 where "c3 \<longleftrightarrow> i < length b \<and> i < length y \<and> b ! i = y ! i \<and> i < length b"
  note u = merge_loop_unfold[OF c_def c1_def c2_def c3_def]
  from Suc have "i + 1 \<le> min (length b) (length y)"
    and "n = min (length b) (length y) - (i + 1)"
    by arith+
  then have IH: "\<And>m cs hc. snd (snd (merge_loop b b y (i + 1) (i + 1) (i + 1) m cs hc))"
    using Suc.hyps(1) by blast
  have c using Suc.hyps(2) unfolding c_def by arith
  then show ?case
    by (simp add: u IH del: One_nat_def add_Suc_right)
qed

lemma merge_ours_changed:
  "length x = length b \<Longrightarrow> three_way_merge_lines b x b = clean_merge x"
  by (simp add: three_way_merge_lines_def clean_merge_def merge_loop_ours_changed)

lemma merge_theirs_changed:
  "length y = length b \<Longrightarrow> three_way_merge_lines b b y = clean_merge y"
  by (simp add: three_way_merge_lines_def clean_merge_def merge_loop_theirs_changed)

lemma merge_ours_mismatch:
  "length x \<noteq> length b \<Longrightarrow> has_conflicts (three_way_merge_lines b x b)"
proof -
  assume "length x \<noteq> length b"
  then have "snd (snd (merge_loop b x b 0 0 0 [] [] False))"
    by (intro merge_loop_length_mismatch_ours) simp_all
  then show ?thesis
    by (cases "merge_loop b x b 0 0 0 [] [] False") (simp add: three_way_merge_lines_def)
qed

lemma merge_theirs_mismatch:
  "length y \<noteq> length b \<Longrightarrow> has_conflicts (three_way_merge_lines b b y)"
proof -
  assume "length y \<noteq> length b"
  then have "snd (snd (merge_loop b b y 0 0 0 [] [] False))"
    by (intro merge_loop_length_mismatch_theirs) simp_all
  then show ?thesis
    by (cases "merge_loop b b y 0 0 0 [] [] False") (simp add: three_way_merge_lines_def)
qed

text \<open>
  Claim C4, as the code has it. The loop walks the three sequences with one common position,
  so the identities hold between sequences of equal length: \<open>merge(b, b, b)\<close> is \<open>b\<close> without
  conflicts; \<open>merge(b, x, b)\<close> is \<open>x\<close> without conflicts when \<open>x\<close> has as many lines as \<open>b\<close>, and
  \<open>merge(b, b, y)\<close> is \<open>y\<close> without conflicts when \<open>y\<close> has as many lines as \<open>b\<close>. When the
  changed side has another number of lines than the base, the result reports a conflict.
  The merged lines are returned joined by newlines, as \<^verbatim>\<open>merged_content\<close>.
\<close>

theorem three_way_identity_equal_length:
  "three_way_merge_lines b b b = clean_merge b
   \<and> (length x = length b \<longrightarrow> three_way_merge_lines b x b = clean_merge x)
   \<and> (length y = length b \<longrightarrow> three_way_merge_lines b b y = clean_merge y)
   \<and> (length x \<noteq> length b \<longrightarrow> has_conflicts (three_way_merge_lines b x b))
   \<and> (length y \<noteq> length b \<longrightarrow> has_conflicts (three_way_merge_lines b b y))"
  using merge_ours_changed[of b b] merge_ours_changed[of x b] merge_theirs_changed[of y b]
    merge_ours_mismatch[of x b] merge_theirs_mismatch[of y b]
  by blast

theorem three_way_identity_equal_length_witness:
  "length [''a'', ''c''] = length [''a'', ''b'']
   \<and> three_way_merge_lines [''a'', ''b''] [''a'', ''c''] [''a'', ''b''] = clean_merge [''a'', ''c'']
   \<and> three_way_merge_lines [''a'', ''b''] [''a'', ''b''] [''a'', ''c''] = clean_merge [''a'', ''c'']
   \<and> length [''a''] \<noteq> length [''a'', ''b'']
   \<and> has_conflicts (three_way_merge_lines [''a'', ''b''] [''a''] [''a'', ''b''])
   \<and> has_conflicts (three_way_merge_lines [''a'', ''b''] [''a'', ''b''] [''a''])"
proof -
  have e: "length [''a'', ''c''] = length [''a'', ''b'']" by simp
  have n: "length [''a''] \<noteq> length [''a'', ''b'']" by simp
  show ?thesis
    using three_way_identity_equal_length[of "[''a'', ''b'']" "[''a'', ''c'']" "[''a'', ''c'']"]
      three_way_identity_equal_length[of "[''a'', ''b'']" "[''a'']" "[''a'']"] e n
    by blast
qed

text \<open>
  The claim as written fails when a line is appended on one side: with base \<open>a\<close> and ours
  \<open>a, c\<close> the result is not \<open>a, c\<close> but carries a conflict block.
\<close>

theorem three_way_identity_counterexample:
  "three_way_merge_lines [''a''] [''a'', ''c''] [''a''] \<noteq> clean_merge [''a'', ''c'']
   \<and> has_conflicts (three_way_merge_lines [''a''] [''a'', ''c''] [''a''])
   \<and> merged_content (three_way_merge_lines [''a''] [''a'', ''c''] [''a''])
       = join_lines [''a'', ''<<<<<<< HEAD'', ''c'', ''======='', ''>>>>>>> branch'']"
proof -
  have "merge_loop [''a''] [''a'', ''c''] [''a''] 0 0 0 [] [] False
        = ([''a'', ''<<<<<<< HEAD'', ''c'', ''======='', ''>>>>>>> branch''],
           [make_conflict [''a'', ''c''] [''a''] 1 1], True)"
    by (simp add: merge_loop.simps conflict_markers_def conflict_lines_def)
  then show ?thesis
    by (simp add: three_way_merge_lines_def clean_merge_def)
qed

subsection \<open>Status of the index\<close>

lemma memcmp_eq_0: "length xs = length ys \<Longrightarrow> (memcmp xs ys = 0) = (xs = ys)"
proof (induction xs ys rule: list_induct2)
  case Nil
  then show ?case by simp
next
  case (Cons x xs y ys)
  have "x \<noteq> y \<Longrightarrow> int (unat x) - int (unat y) \<noteq> 0"
  proof -
    assume "x \<noteq> y"
    then have "unat x \<noteq> unat y" by (simp add: word_unat_eq_iff)
    then show ?thesis by linarith
  qed
  with Cons show ?case by auto
qed

lemma hash_compare_32:
  assumes "length a = 32" and "length b = 32"
  shows "(svcs_hash_compare a b \<noteq> 0) = (a \<noteq> b)"
  using assms memcmp_eq_0[of a b] by (simp add: svcs_hash_compare_def SVCS_HASH_SIZE_def)

lemma hash_file_regular:
  assumes "fs p = Some n" and "st_data n = Some data"
  shows "svcs_hash_file os sha fs p = Inr (blob_hash sha data)"
  using assms
  by (simp add: svcs_hash_file_def svcs_file_read_def blob_hash_def Let_def
      EVP_DigestFinal_ex_def EVP_DigestUpdate_def EVP_DigestInit_ex_def)

lemma hash_file_directory:
  assumes "fs p = Some n" and "st_data n = None"
  shows "svcs_hash_file os sha fs p =
     (if dir_seek_end os p < 0 then Inl SVCS_ERROR_IO
      else if \<not> malloc_ok os (nat (dir_seek_end os p)) then Inl SVCS_ERROR_MEMORY
      else if dir_seek_end os p \<noteq> 0 then Inl SVCS_ERROR_IO
      else Inr (blob_hash sha []))"
  using assms
  by (simp add: svcs_hash_file_def svcs_file_read_def blob_hash_def Let_def
      EVP_DigestFinal_ex_def EVP_DigestUpdate_def EVP_DigestInit_ex_def)

lemma file_read_directory:
  assumes "fs p = Some n" and "st_data n = None"
  shows "svcs_file_read tmpfs fs p = Inr []"
    and "svcs_file_read ext4 fs p = Inl SVCS_ERROR_MEMORY"
  using assms by (simp_all add: svcs_file_read_def tmpfs_def ext4_def LONG_MAX_def)

lemma status_of_entry_spec:
  assumes sha: "\<And>x. length (sha x) = 32" and e: "length (entry_hash e) = 32"
  shows "status_of_entry os sha fs e = e\<lparr> entry_status := status_spec os sha fs e \<rparr>"
proof (cases "fs (entry_path e)")
  case None
  then show ?thesis
    by (simp add: status_of_entry_def status_spec_def svcs_file_exists_def)
next
  case (Some n)
  have cmp: "(svcs_hash_compare (blob_hash sha x) (entry_hash e) \<noteq> 0)
             = (blob_hash sha x \<noteq> entry_hash e)" for x
    using sha e by (intro hash_compare_32) (simp_all add: blob_hash_def)
  show ?thesis
  proof (cases "st_data n")
    case (Some data)
    with \<open>fs (entry_path e) = Some n\<close> show ?thesis
      using cmp [of data]
      by (simp add: status_of_entry_def status_spec_def svcs_file_exists_def svcs_file_mtime_def
          hash_file_regular Let_def)
  next
    case None
    have h: "svcs_hash_file os sha fs (entry_path e) =
       (if dir_seek_end os (entry_path e) < 0 then Inl SVCS_ERROR_IO
        else if \<not> malloc_ok os (nat (dir_seek_end os (entry_path e))) then Inl SVCS_ERROR_MEMORY
        else if dir_seek_end os (entry_path e) \<noteq> 0 then Inl SVCS_ERROR_IO
        else Inr (blob_hash sha []))"
      using \<open>fs (entry_path e) = Some n\<close> None by (rule hash_file_directory)
    show ?thesis
    proof (cases "dir_seek_end os (entry_path e) = 0 \<and> malloc_ok os 0")
      case True
      with h have "svcs_hash_file os sha fs (entry_path e) = Inr (blob_hash sha [])" by simp
      with True None \<open>fs (entry_path e) = Some n\<close> show ?thesis
        using cmp [of "[]"]
        by (simp add: status_of_entry_def status_spec_def svcs_file_exists_def
            svcs_file_mtime_def Let_def)
    next
      case False
      with h have "\<exists>err. svcs_hash_file os sha fs (entry_path e) = Inl err"
        by (auto split: if_splits)
      then obtain err where "svcs_hash_file os sha fs (entry_path e) = Inl err" ..
      with False None \<open>fs (entry_path e) = Some n\<close> show ?thesis
        by (auto simp: status_of_entry_def status_spec_def svcs_file_exists_def
            svcs_file_mtime_def Let_def)
    qed
  qed
qed

lemma index_status_map:
  assumes "\<And>x. length (sha x) = 32"
    and "\<forall>e \<in> set (entries (index repo)). length (entry_hash e) = 32"
  shows "svcs_index_status os sha fs repo
         = (repo, Inr (map (\<lambda>e. e\<lparr> entry_status := status_spec os sha fs e \<rparr>) (entries (index repo))))"
proof -
  have "map (status_of_entry os sha fs) (entries (index repo))
        = map (\<lambda>e. e\<lparr> entry_status := status_spec os sha fs e \<rparr>) (entries (index repo))"
    using assms by (intro map_cong) (simp_all add: status_of_entry_spec)
  then show ?thesis
    by (simp add: svcs_index_status_def)
qed

lemma length_length_digest: "length (length_digest x) = 32"
  by (simp add: length_digest_def)

lemma length_digest_not_zero:
  "length x < 255 \<Longrightarrow> length_digest x \<noteq> svcs_hash_init"
proof -
  assume a: "length x < 255"
  have "replicate 32 (0::byte) = replicate (Suc 31) 0" by simp
  also have "\<dots> = 0 # replicate 31 0" by (simp only: replicate_Suc)
  also have "\<dots> = replicate 31 0 @ [0]" by (simp only: replicate_append_same)
  finally have z: "svcs_hash_init = replicate 31 0 @ [0]"
    by (simp add: svcs_hash_init_def SVCS_HASH_SIZE_def)
  have "\<not> 2 ^ LENGTH(8) dvd (length x + 1)"
    using a by (auto dest: dvd_imp_le)
  then have "(of_nat (length x + 1) :: byte) \<noteq> 0"
    by (simp only: word_of_nat_eq_0_iff not_False_eq_True)
  then have "(of_nat (length x) + 1 :: byte) \<noteq> 0"
    by (simp add: add.commute)
  then show ?thesis unfolding z length_digest_def by simp
qed

lemma blob_hash_length_digest: "blob_hash length_digest [x] \<noteq> svcs_hash_init"
  "blob_hash length_digest [] \<noteq> svcs_hash_init"
  by (simp_all add: blob_hash_def bytes_of_def fmt_zu.simps length_digest_not_zero)

text \<open>
  Claim C8. With 32-byte digests throughout, \<^verbatim>\<open>svcs_index_status\<close> succeeds and returns, in
  the order of the index, a copy of every entry whose status is Deleted if the entry's file
  no longer exists, Modified if the file's mtime differs from the recorded mtime and its
  recomputed blob hash (the SHA3-256 digest of \<^verbatim>\<open>blob\<close>, a space, the length, a zero byte and
  the bytes now in the file) differs from the recorded hash, and the stored status otherwise;
  the repository, and so its index entries, is handed back unchanged. Where the path has
  become a directory, the hash is recomputed only on a platform that reads a directory as an
  empty file, and is then the blob hash of no bytes.
\<close>

theorem index_status_reflects_working_tree:
  assumes "\<And>x. length (sha3_256 x) = 32"
    and "\<forall>e \<in> set (entries (index repo)). length (entry_hash e) = 32"
  shows "svcs_index_status os sha3_256 fs repo
         = (repo, Inr (map (\<lambda>e. e\<lparr> entry_status := status_spec os sha3_256 fs e \<rparr>)
                           (entries (index repo))))"
  using assms by (rule index_status_map)

theorem index_status_reflects_working_tree_witness:
  "svcs_index_status tmpfs length_digest status_example_fs status_example_repo
   = (status_example_repo,
      Inr [status_example_entry ''gone.txt'' svcs_hash_init 1 SVCS_STATUS_DELETED,
           status_example_entry ''a.txt'' svcs_hash_init 3 SVCS_STATUS_MODIFIED,
           status_example_entry ''b.txt'' svcs_hash_init 7 SVCS_STATUS_ADDED,
           status_example_entry ''c.txt'' (blob_hash length_digest [4]) 3 SVCS_STATUS_ADDED,
           status_example_entry ''d'' svcs_hash_init 3 SVCS_STATUS_MODIFIED])"
proof -
  have l: "length (blob_hash length_digest [4]) = 32"
    by (simp add: blob_hash_def length_length_digest)
  have h: "\<forall>e \<in> set (entries (index status_example_repo)). length (entry_hash e) = 32"
    by (simp add: status_example_repo_def status_example_entry_def svcs_hash_init_def
        SVCS_HASH_SIZE_def l)
  have gone: "status_spec tmpfs length_digest status_example_fs
                (status_example_entry ''gone.txt'' svcs_hash_init 1 SVCS_STATUS_ADDED)
              = SVCS_STATUS_DELETED"
    by (simp add: status_spec_def status_example_fs_def status_example_entry_def)
  have a: "status_spec tmpfs length_digest status_example_fs
                (status_example_entry ''a.txt'' svcs_hash_init 3 SVCS_STATUS_ADDED)
              = SVCS_STATUS_MODIFIED"
    by (simp add: status_spec_def status_example_fs_def status_example_entry_def
        blob_hash_length_digest)
  have b: "status_spec tmpfs length_digest status_example_fs
                (status_example_entry ''b.txt'' svcs_hash_init 7 SVCS_STATUS_ADDED)
              = SVCS_STATUS_ADDED"
    by (simp add: status_spec_def status_example_fs_def status_example_entry_def)
  have c: "status_spec tmpfs length_digest status_example_fs
                (status_example_entry ''c.txt'' (blob_hash length_digest [4]) 3 SVCS_STATUS_ADDED)
              = SVCS_STATUS_ADDED"
    by (simp add: status_spec_def status_example_fs_def status_example_entry_def)
  have d: "status_spec tmpfs length_digest status_example_fs
                (status_example_entry ''d'' svcs_hash_init 3 SVCS_STATUS_ADDED)
              = SVCS_STATUS_MODIFIED"
    by (simp add: status_spec_def status_example_fs_def status_example_entry_def tmpfs_def
        blob_hash_length_digest)
  have "svcs_index_status tmpfs length_digest status_example_fs status_example_repo
        = (status_example_repo,
           Inr (map (\<lambda>e. e\<lparr> entry_status := status_spec tmpfs length_digest status_example_fs e \<rparr>)
                    (entries (index status_example_repo))))"
    using index_status_reflects_working_tree
            [of length_digest status_example_repo tmpfs status_example_fs]
      length_length_digest h
    by blast
  also have "map (\<lambda>e. e\<lparr> entry_status := status_spec tmpfs length_digest status_example_fs e \<rparr>)
                    (entries (index status_example_repo))
        = [status_example_entry ''gone.txt'' svcs_hash_init 1 SVCS_STATUS_DELETED,
           status_example_entry ''a.txt'' svcs_hash_init 3 SVCS_STATUS_MODIFIED,
           status_example_entry ''b.txt'' svcs_hash_init 7 SVCS_STATUS_ADDED,
           status_example_entry ''c.txt'' (blob_hash length_digest [4]) 3 SVCS_STATUS_ADDED,
           status_example_entry ''d'' svcs_hash_init 3 SVCS_STATUS_MODIFIED]"
    apply (simp add: status_example_repo_def gone a b c d)
    apply (simp add: status_example_entry_def)
    done
  finally show ?thesis .
qed

subsection \<open>Bytes and C strings\<close>

lemma unat_of_char: "unat (of_char c :: byte) = of_char c"
proof -
  have "(of_char c :: byte) = of_nat (of_char c)" by (simp add: of_nat_of_char)
  then have "unat (of_char c :: byte) = (of_char c :: nat) mod 2 ^ LENGTH(8)"
    by (simp only: unat_of_nat)
  then show ?thesis by simp
qed

lemma chars_of_bytes_of: "chars_of (bytes_of s) = s"
  by (simp add: chars_of_def bytes_of_def unat_of_char comp_def)

lemma of_char_byte_eq_0: "((of_char c :: byte) = 0) = (c = NUL)"
proof -
  have "((of_char c :: byte) = 0) = (unat (of_char c :: byte) = 0)"
    by (simp add: unat_eq_0)
  also have "\<dots> = ((of_char c :: nat) = of_char NUL)"
    by (simp add: unat_of_char NUL_def)
  also have "\<dots> = (c = NUL)" by (simp only: of_char_eq_iff)
  finally show ?thesis .
qed

lemma chars_of_append: "chars_of (a @ b) = chars_of a @ chars_of b"
  by (simp add: chars_of_def)

lemma chars_of_zero: "chars_of (0 # r) = NUL # chars_of r"
proof -
  have "char_of (0::nat) = char_of (of_char NUL :: nat)" by (simp add: NUL_def)
  then have "char_of (0::nat) = NUL" by (simp only: char_of_char)
  then show ?thesis by (simp add: chars_of_def)
qed

lemma cstring_bytes_of:
  assumes "NUL \<notin> set s"
  shows "cstring (bytes_of s @ 0 # r) = s" and "cstring (bytes_of s) = s"
proof -
  have a: "\<And>x. x \<in> set s \<Longrightarrow> x \<noteq> NUL" using assms by auto
  show "cstring (bytes_of s @ 0 # r) = s"
    by (simp add: cstring_def chars_of_append chars_of_zero chars_of_bytes_of a)
  show "cstring (bytes_of s) = s"
    using a by (simp add: cstring_def chars_of_bytes_of)
qed

lemma header_end_bytes_of:
  assumes "NUL \<notin> set s"
  shows "takeWhile (\<lambda>b. b \<noteq> 0) (bytes_of s @ 0 # r) = bytes_of s"
proof -
  have "\<And>b. b \<in> set (bytes_of s) \<Longrightarrow> b \<noteq> 0"
    using assms by (auto simp: bytes_of_def of_char_byte_eq_0)
  then show ?thesis by simp
qed

subsection \<open>Object store: what is written and what is read back\<close>

lemma hash_to_string_head:
  "svcs_hash_to_string h = fmt_02x (h ! 0) @ concat (map (\<lambda>i. fmt_02x (h ! i)) [1..<32])"
proof -
  have "[0..<32::nat] = 0 # [1..<32]" by (simp add: upt_conv_Cons)
  then show ?thesis
    by (simp add: svcs_hash_to_string_def SVCS_HASH_SIZE_def del: upt_Suc)
qed

lemma take2_hash_to_string: "take 2 (svcs_hash_to_string h) = fmt_02x (h ! 0)"
  by (simp add: hash_to_string_head length_fmt_02x del: upt_Suc)

lemma slash_notin_digits: "CHR ''/'' \<notin> set digit_chars"
  by (simp add: digit_chars_def)

lemma slash_notin_hash_string: "CHR ''/'' \<notin> set (svcs_hash_to_string h)"
  using set_hash_to_string[of h] slash_notin_digits by blast

lemma fmt_02x_no_slash:
  obtains c1 c2 where "fmt_02x b = [c1, c2]" "c1 \<noteq> CHR ''/''" "c2 \<noteq> CHR ''/''"
proof -
  have "set (fmt_02x b) \<subseteq> set digit_chars" by (rule fmt_02x_chars)
  then have "fmt_02x b ! 0 \<noteq> CHR ''/''" "fmt_02x b ! 1 \<noteq> CHR ''/''"
    using slash_notin_digits by (auto simp: fmt_02x_def simp del: length_greater_0_conv)
  moreover have "fmt_02x b = [fmt_02x b ! 0, fmt_02x b ! 1]"
    by (simp add: fmt_02x_def)
  ultimately show ?thesis using that by blast
qed

lemma dirname_append_slash:
  assumes "CHR ''/'' \<notin> set b"
  shows "dirname (d @ CHR ''/'' # b) = d"
proof -
  have "dropWhile (\<lambda>c. c \<noteq> CHR ''/'') (rev b @ CHR ''/'' # rev d) = CHR ''/'' # rev d"
    using assms by (subst dropWhile_append2) auto
  then show ?thesis by (simp add: dirname_def)
qed

lemma object_path_split:
  "get_object_path repo h
   = (git_dir repo @ ''/objects/'' @ fmt_02x (h ! 0)) @ CHR ''/'' # drop 2 (svcs_hash_to_string h)"
  by (simp add: get_object_path_def take2_hash_to_string)

lemma slash_notin_object_name: "CHR ''/'' \<notin> set (drop 2 (svcs_hash_to_string h))"
  using slash_notin_hash_string[of h] by (auto dest: in_set_dropD)

lemma object_dirname:
  "dirname (get_object_path repo h) = git_dir repo @ ''/objects/'' @ fmt_02x (h ! 0)"
  unfolding object_path_split by (rule dirname_append_slash) (rule slash_notin_object_name)

lemma slash_in_object_path: "CHR ''/'' \<in> set (get_object_path repo h)"
  by (simp add: get_object_path_def Let_def)

text \<open>What \<^verbatim>\<open>svcs_object_write\<close> does, in terms of the run of \<^verbatim>\<open>svcs_mkdir_recursive\<close>.\<close>

lemma object_write_existing:
  assumes "snd (svcs_mkdir_recursive now (dirname (get_object_path repo (obj_hash obj))) fs) = fs1"
    and "fs1 (get_object_path repo (obj_hash obj)) \<noteq> None"
  shows "svcs_object_write now repo obj fs = (Inr (), fs1)"
  using assms by (simp add: svcs_object_write_def slash_in_object_path svcs_file_exists_def)

lemma object_write_fresh:
  assumes "snd (svcs_mkdir_recursive now (dirname (get_object_path repo (obj_hash obj))) fs) = fs1"
    and "fs1 (get_object_path repo (obj_hash obj)) = None"
    and "is_directory fs1 (dirname (get_object_path repo (obj_hash obj)))"
  shows "svcs_object_write now repo obj fs
         = (Inr (), fs1(get_object_path repo (obj_hash obj) \<mapsto>
              \<lparr> st_mtime = now,
                st_data = Some (bytes_of (type_str (obj_type obj) @ '' '' @ fmt_zu (obj_size obj)) @ [0]) \<rparr>))"
  using assms
  by (simp add: svcs_object_write_def slash_in_object_path svcs_file_exists_def fopen_wb_def)


lemma example_mkdir_fanout:
  assumes "c1 \<noteq> CHR ''/''" and "c2 \<noteq> CHR ''/''"
  shows "svcs_mkdir_recursive now (''r/.svcs/objects/'' @ [c1, c2]) (example_fs head)
         = (Inr (), (example_fs head)(''r/.svcs/objects/'' @ [c1, c2] \<mapsto>
                       \<lparr> st_mtime = now, st_data = None \<rparr>))"
  using assms
  by (simp add: svcs_mkdir_recursive_def upt_rec mkdir_def example_fs_def is_directory_def
      dirname_def example_dir_def)

lemma example_mkdir_fanout_again:
  assumes "c1 \<noteq> CHR ''/''" and "c2 \<noteq> CHR ''/''"
  shows "svcs_mkdir_recursive now' (''r/.svcs/objects/'' @ [c1, c2])
           ((example_fs head)(''r/.svcs/objects/'' @ [c1, c2] \<mapsto> dn,
                              (''r/.svcs/objects/'' @ [c1, c2]) @ CHR ''/'' # b \<mapsto> fn))
         = (Inr (), (example_fs head)(''r/.svcs/objects/'' @ [c1, c2] \<mapsto> dn,
                              (''r/.svcs/objects/'' @ [c1, c2]) @ CHR ''/'' # b \<mapsto> fn))"
  using assms
  by (simp add: svcs_mkdir_recursive_def upt_rec mkdir_def example_fs_def)


lemma type_str_first_byte: "\<exists>c cs. type_str t = c # cs \<and> (of_char c :: byte) \<noteq> 0x78"
  by (cases t) (simp_all add: type_str_def)

lemma read_raw_header_fails:
  assumes "fs (get_object_path repo h) = Some \<lparr> st_mtime = m, st_data = Some (bytes_of (type_str t @ rest) @ [0]) \<rparr>"
  shows "svcs_object_read os stored_codec repo h fs = Some (Inl SVCS_ERROR)"
proof -
  obtain c cs where c: "type_str t = c # cs" "(of_char c :: byte) \<noteq> 0x78"
    using type_str_first_byte by blast
  have "svcs_decompress stored_codec (bytes_of (type_str t @ rest) @ [0]) = Some (Inl SVCS_ERROR)"
    by (simp add: svcs_decompress_def decompress_loop.simps stored_codec_def c bytes_of_def)
  then show ?thesis
    using assms by (simp add: svcs_object_read_def svcs_file_exists_def svcs_file_read_def)
qed

lemma example_object_write:
  "svcs_object_write now (example_repo es) obj (example_fs head)
   = (Inr (), written_object_fs now (example_repo es) obj (example_fs head))"
proof -
  let ?R = "example_repo es"
  obtain c1 c2 where c: "fmt_02x (obj_hash obj ! 0) = [c1, c2]" "c1 \<noteq> CHR ''/''" "c2 \<noteq> CHR ''/''"
    by (rule fmt_02x_no_slash)
  define b where "b = drop 2 (svcs_hash_to_string (obj_hash obj))"
  have d: "dirname (get_object_path ?R (obj_hash obj)) = ''r/.svcs/objects/'' @ [c1, c2]"
    by (simp add: object_dirname c example_repo_def)
  have p: "get_object_path ?R (obj_hash obj) = (''r/.svcs/objects/'' @ [c1, c2]) @ CHR ''/'' # b"
    by (simp add: object_path_split c example_repo_def b_def)
  let ?fs1 = "(example_fs head)(''r/.svcs/objects/'' @ [c1, c2] \<mapsto> \<lparr> st_mtime = now, st_data = None \<rparr>)"
  have m: "snd (svcs_mkdir_recursive now (dirname (get_object_path ?R (obj_hash obj))) (example_fs head)) = ?fs1"
    unfolding d using example_mkdir_fanout[OF c(2,3), of now head] by simp
  have n: "?fs1 (get_object_path ?R (obj_hash obj)) = None"
    unfolding p by (simp add: example_fs_def)
  have i: "is_directory ?fs1 (dirname (get_object_path ?R (obj_hash obj)))"
    unfolding d by (simp add: is_directory_def)
  show ?thesis
    unfolding object_write_fresh[OF m n i] written_object_fs_def d by simp
qed

lemma example_object_write_again:
  "svcs_object_write now' (example_repo es) obj
     (written_object_fs now (example_repo es) obj (example_fs head))
   = (Inr (), written_object_fs now (example_repo es) obj (example_fs head))"
proof -
  let ?R = "example_repo es"
  obtain c1 c2 where c: "fmt_02x (obj_hash obj ! 0) = [c1, c2]" "c1 \<noteq> CHR ''/''" "c2 \<noteq> CHR ''/''"
    by (rule fmt_02x_no_slash)
  define b where "b = drop 2 (svcs_hash_to_string (obj_hash obj))"
  have d: "dirname (get_object_path ?R (obj_hash obj)) = ''r/.svcs/objects/'' @ [c1, c2]"
    by (simp add: object_dirname c example_repo_def)
  have p: "get_object_path ?R (obj_hash obj) = (''r/.svcs/objects/'' @ [c1, c2]) @ CHR ''/'' # b"
    by (simp add: object_path_split c example_repo_def b_def)
  let ?W = "written_object_fs now ?R obj (example_fs head)"
  have m: "snd (svcs_mkdir_recursive now' (dirname (get_object_path ?R (obj_hash obj))) ?W) = ?W"
    unfolding written_object_fs_def d unfolding p
    using example_mkdir_fanout_again[OF c(2,3)] by simp
  have e: "?W (get_object_path ?R (obj_hash obj)) \<noteq> None"
    by (simp add: written_object_fs_def)
  show ?thesis by (rule object_write_existing[OF m e])
qed

lemma example_object_read:
  "svcs_object_read os stored_codec (example_repo es) (obj_hash obj)
     (written_object_fs now (example_repo es) obj (example_fs head))
   = Some (Inl SVCS_ERROR)"
  by (rule read_raw_header_fails[where t = "obj_type obj" and m = now
        and rest = "'' '' @ fmt_zu (obj_size obj)"])
     (simp add: written_object_fs_def)

text \<open>
  Claim C1 against the code. On a repository as \<^verbatim>\<open>svcs_repository_init\<close> leaves it,
  \<^verbatim>\<open>svcs_object_write\<close> of any object succeeds, and a second write of the same object
  succeeds and changes nothing. The file it leaves, however, holds the header
  \<^verbatim>\<open><type> <size>\<close> and a zero byte and nothing else: no payload, and not the output of the
  compressor. \<^verbatim>\<open>svcs_object_read\<close> hands that file to \<^verbatim>\<open>svcs_decompress\<close>, and with a codec
  that, like zlib, rejects bytes that do not begin a compressed stream, the read fails with
  \<^verbatim>\<open>SVCS_ERROR\<close> instead of returning the object.
\<close>

theorem object_write_then_read_fails:
  "svcs_object_write now (example_repo es) obj (example_fs head)
     = (Inr (), written_object_fs now (example_repo es) obj (example_fs head))
   \<and> svcs_object_write now' (example_repo es) obj
         (written_object_fs now (example_repo es) obj (example_fs head))
     = (Inr (), written_object_fs now (example_repo es) obj (example_fs head))
   \<and> svcs_file_read os (written_object_fs now (example_repo es) obj (example_fs head))
         (get_object_path (example_repo es) (obj_hash obj))
     = Inr (bytes_of (type_str (obj_type obj) @ '' '' @ fmt_zu (obj_size obj)) @ [0])
   \<and> svcs_object_read os stored_codec (example_repo es) (obj_hash obj)
         (written_object_fs now (example_repo es) obj (example_fs head))
     = Some (Inl SVCS_ERROR)"
  using example_object_write[of now es obj head] example_object_write_again[of now' es obj now head]
    example_object_read[of os es obj now head]
  by (simp add: svcs_file_read_def written_object_fs_def)

subsection \<open>Reading a commit\<close>

lemma commit_read_fixed:
  assumes "svcs_object_read os z repo hash fs = Some (Inr obj)"
    and "obj_type obj = SVCS_OBJ_COMMIT"
  shows "svcs_commit_read os z now repo hash fs
         = Some (Inr \<lparr> commit_tree_hash = svcs_hash_init,
                        commit_parent_hash = svcs_hash_init,
                        commit_author = ''Author'',
                        commit_committer = ''Committer'',
                        commit_timestamp = now,
                        commit_message = ''Commit message'',
                        commit_signature = [] \<rparr>)"
  using assms by (simp add: svcs_commit_read_def svcs_hash_init_def)

lemma example_commit_store_read:
  "svcs_object_read os stored_codec (example_repo []) svcs_hash_init example_commit_store
   = Some (Inr \<lparr> obj_type = SVCS_OBJ_COMMIT, obj_size = 0, obj_hash = svcs_hash_init \<rparr>)"
proof -
  have d: "svcs_decompress stored_codec (0x78 # bytes_of ''commit 0'' @ [0])
           = Some (Inr (bytes_of ''commit 0'' @ [0]))"
    by (simp add: svcs_decompress_def decompress_loop.simps stored_codec_def bytes_of_def)
  have p: "parse_object svcs_hash_init (bytes_of ''commit 0'' @ [0])
           = Inr \<lparr> obj_type = SVCS_OBJ_COMMIT, obj_size = 0, obj_hash = svcs_hash_init \<rparr>"
  proof -
    have n: "NUL \<notin> set ''commit 0''" by (simp add: NUL_def)
    show ?thesis
      by (simp add: parse_object_def cstring_bytes_of[OF n] header_end_bytes_of[OF n]
          type_of_name_def strtoul10_def isspace_def isdigit_def ULONG_MAX_def)
  qed
  show ?thesis
    by (simp add: svcs_object_read_def example_commit_store_def svcs_file_exists_def
        svcs_file_read_def d p)
qed

text \<open>
  Claim C10. Whenever the object stored under a hash reads back with type commit,
  \<^verbatim>\<open>svcs_commit_read\<close> succeeds with a record whose message is \<^verbatim>\<open>Commit message\<close>, whose author
  is \<^verbatim>\<open>Author\<close>, whose committer is \<^verbatim>\<open>Committer\<close> and whose timestamp is the time of the call;
  the remaining fields are the zeros of \<^verbatim>\<open>calloc\<close>. Nothing of the stored payload enters the
  record.
\<close>

theorem commit_read_returns_fixed_record:
  assumes "svcs_object_read os z repo hash fs = Some (Inr obj)"
    and "obj_type obj = SVCS_OBJ_COMMIT"
  shows "svcs_commit_read os z now repo hash fs
         = Some (Inr \<lparr> commit_tree_hash = svcs_hash_init,
                        commit_parent_hash = svcs_hash_init,
                        commit_author = ''Author'',
                        commit_committer = ''Committer'',
                        commit_timestamp = now,
                        commit_message = ''Commit message'',
                        commit_signature = [] \<rparr>)"
  using assms by (rule commit_read_fixed)

theorem commit_read_returns_fixed_record_witness:
  "svcs_object_read tmpfs stored_codec (example_repo []) svcs_hash_init example_commit_store
     = Some (Inr \<lparr> obj_type = SVCS_OBJ_COMMIT, obj_size = 0, obj_hash = svcs_hash_init \<rparr>)
   \<and> svcs_commit_read tmpfs stored_codec 1700000000 (example_repo []) svcs_hash_init example_commit_store
     = Some (Inr \<lparr> commit_tree_hash = svcs_hash_init,
                    commit_parent_hash = svcs_hash_init,
                    commit_author = ''Author'',
                    commit_committer = ''Committer'',
                    commit_timestamp = 1700000000,
                    commit_message = ''Commit message'',
                    commit_signature = [] \<rparr>)"
  using commit_read_returns_fixed_record
          [where os = tmpfs and now = 1700000000, OF example_commit_store_read]
    example_commit_store_read [of tmpfs]
  by simp

subsection \<open>Tree synthesis from the index\<close>

lemma bytes_of_append: "bytes_of (a @ b) = bytes_of a @ bytes_of b"
  by (simp add: bytes_of_def)

lemma tree_entry_bytes_spec:
  "tree_entry_bytes e
   = bytes_of (fmt_o (unat (entry_mode e))) @ [of_char CHR '' ''] @ bytes_of (entry_path e)
     @ [0] @ take 32 (entry_hash e)"
  by (simp add: tree_entry_bytes_def bytes_of_def SVCS_HASH_SIZE_def)

lemma tree_data_in_order: "tree_data es = tree_payload_in_order es"
  by (induction es) (simp_all add: tree_payload_in_order_def tree_entry_bytes_spec)

lemma create_tree_empty:
  "entries (index repo) = [] \<Longrightarrow>
   create_tree_from_index sha3_256 now repo fs = (Inr svcs_hash_init, fs)"
  by (simp add: create_tree_from_index_def)

lemma create_tree_nonempty:
  assumes "entries (index repo) \<noteq> []"
  shows "create_tree_from_index sha3_256 now repo fs =
     (let payload = tree_payload_in_order (entries (index repo));
          tree_hash = svcs_hash_object sha3_256 SVCS_OBJ_TREE payload
      in case svcs_object_write now repo
                \<lparr> obj_type = SVCS_OBJ_TREE, obj_size = length payload, obj_hash = tree_hash \<rparr> fs of
           (Inl err, fs') \<Rightarrow> (Inl err, fs')
         | (Inr _, fs') \<Rightarrow> (Inr tree_hash, fs'))"
  using assms by (simp add: create_tree_from_index_def tree_data_in_order Let_def)

lemma example_sorted: "sort_by_path [example_entry_b, example_entry_a] = [example_entry_a, example_entry_b]"
  by (simp add: sort_by_path_def example_entry_a_def example_entry_b_def status_example_entry_def)

lemma example_payload_differs:
  "tree_data [example_entry_b, example_entry_a] \<noteq> tree_payload_sorted [example_entry_b, example_entry_a]"
  by (simp add: tree_payload_sorted_def example_sorted tree_entry_bytes_spec)
     (simp add: example_entry_a_def example_entry_b_def status_example_entry_def bytes_of_def)

text \<open>
  Claim C3, as the code has it. \<^verbatim>\<open>create_tree_from_index\<close> returns the zero hash, and
  touches nothing, when the index has no entries. Otherwise the bytes it emits are, for
  the index entries taken in the order the index array holds them (no sorting takes
  place), the octal mode, a space, the path, a zero byte and the 32 raw hash bytes; it hashes
  these bytes as a tree object, writes the tree object and returns the hash, or the error of
  the write.
\<close>

theorem tree_from_index_in_index_order:
  "(entries (index repo) = [] \<longrightarrow>
      create_tree_from_index sha3_256 now repo fs = (Inr svcs_hash_init, fs))
   \<and> tree_data (entries (index repo)) = tree_payload_in_order (entries (index repo))
   \<and> (entries (index repo) \<noteq> [] \<longrightarrow>
        create_tree_from_index sha3_256 now repo fs =
          (let payload = tree_payload_in_order (entries (index repo));
               tree_hash = svcs_hash_object sha3_256 SVCS_OBJ_TREE payload
           in case svcs_object_write now repo
                     \<lparr> obj_type = SVCS_OBJ_TREE, obj_size = length payload, obj_hash = tree_hash \<rparr> fs of
                (Inl err, fs') \<Rightarrow> (Inl err, fs')
              | (Inr _, fs') \<Rightarrow> (Inr tree_hash, fs')))"
  using create_tree_empty[of repo sha3_256 now fs] create_tree_nonempty[of repo sha3_256 now fs]
    tree_data_in_order[of "entries (index repo)"]
  by blast

theorem tree_from_index_in_index_order_witness:
  "create_tree_from_index length_digest 0 (example_repo []) (example_fs [])
     = (Inr svcs_hash_init, example_fs [])
   \<and> create_tree_from_index length_digest 0
         (example_repo [example_entry_b, example_entry_a]) (example_fs [])
     = (Inr (svcs_hash_object length_digest SVCS_OBJ_TREE
               (tree_payload_in_order [example_entry_b, example_entry_a])),
        written_object_fs 0 (example_repo [example_entry_b, example_entry_a])
          \<lparr> obj_type = SVCS_OBJ_TREE,
            obj_size = length (tree_payload_in_order [example_entry_b, example_entry_a]),
            obj_hash = svcs_hash_object length_digest SVCS_OBJ_TREE
                         (tree_payload_in_order [example_entry_b, example_entry_a]) \<rparr>
          (example_fs []))"
proof -
  have e: "entries (index (example_repo [])) = []"
    and n: "entries (index (example_repo [example_entry_b, example_entry_a]))
            = [example_entry_b, example_entry_a]"
    by (simp_all add: example_repo_def)
  show ?thesis
    using tree_from_index_in_index_order[of "example_repo []" length_digest 0 "example_fs []"]
      tree_from_index_in_index_order[of "example_repo [example_entry_b, example_entry_a]"
        length_digest 0 "example_fs []"]
    by (simp add: e n Let_def example_object_write)
qed

text \<open>
  The claim as written fails on an index that holds the path \<open>b\<close> before the path \<open>a\<close>: the
  sorted order would put \<open>a\<close> first, the emitted bytes start with the entry of \<open>b\<close>.
\<close>

theorem tree_from_index_sorted_counterexample:
  "sort_by_path [example_entry_b, example_entry_a] = [example_entry_a, example_entry_b]
   \<and> tree_data [example_entry_b, example_entry_a]
       \<noteq> tree_payload_sorted [example_entry_b, example_entry_a]
   \<and> fst (create_tree_from_index length_digest 0
             (example_repo [example_entry_b, example_entry_a]) (example_fs []))
       = Inr (svcs_hash_object length_digest SVCS_OBJ_TREE
                (tree_data [example_entry_b, example_entry_a]))"
proof -
  have n: "entries (index (example_repo [example_entry_b, example_entry_a])) \<noteq> []"
    by (simp add: example_repo_def)
  have "fst (create_tree_from_index length_digest 0
             (example_repo [example_entry_b, example_entry_a]) (example_fs []))
       = Inr (svcs_hash_object length_digest SVCS_OBJ_TREE
                (tree_data [example_entry_b, example_entry_a]))"
  proof -
    have e: "entries (index (example_repo [example_entry_b, example_entry_a]))
             = [example_entry_b, example_entry_a]"
      by (simp add: example_repo_def)
    show ?thesis
      unfolding create_tree_nonempty[OF n]
      by (simp add: Let_def example_object_write tree_data_in_order e)
  qed
  then show ?thesis
    using example_sorted example_payload_differs by blast
qed

subsection \<open>Committing with a detached HEAD\<close>

lemma mkdir_keeps: "fs p = Some n \<Longrightarrow> snd (mkdir now q fs) p = Some n"
  by (auto simp: mkdir_def)

lemma mkdir_prefixes_keeps:
  "fs p = Some n \<Longrightarrow> snd (mkdir_prefixes now tmp ps fs) p = Some n"
proof (induction ps arbitrary: fs)
  case Nil
  then show ?case by simp
next
  case (Cons q ps)
  obtain r fs' where m: "mkdir now (take q tmp) fs = (r, fs')"
    by (cases "mkdir now (take q tmp) fs")
  then have "fs' p = Some n" using Cons.prems mkdir_keeps[of fs p n now "take q tmp"] by simp
  then have "snd (mkdir_prefixes now tmp ps fs') p = Some n" by (rule Cons.IH)
  moreover have "snd (mkdir_prefixes now tmp ps fs) p = Some n"
    using Cons.prems by (rule Cons.IH)
  ultimately show ?case
    using m \<open>fs' p = Some n\<close> by (cases r) simp_all
qed

lemma mkdir_recursive_keeps:
  assumes "fs p = Some n"
  shows "snd (svcs_mkdir_recursive now path fs) p = Some n"
proof -
  define tmp where "tmp = (if path \<noteq> [] \<and> last path = CHR ''/'' then butlast path else path)"
  obtain r fs' where a: "mkdir_prefixes now tmp [1..<length tmp] fs = (r, fs')"
    by (cases "mkdir_prefixes now tmp [1..<length tmp] fs")
  then have k: "fs' p = Some n"
    using assms mkdir_prefixes_keeps[of fs p n now tmp "[1..<length tmp]"] by simp
  obtain r' fs'' where b: "mkdir now tmp fs' = (r', fs'')"
    by (cases "mkdir now tmp fs'")
  then have k': "fs'' p = Some n" using k mkdir_keeps[of fs' p n now tmp] by simp
  show ?thesis
    unfolding svcs_mkdir_recursive_def tmp_def[symmetric] Let_def
    using a b k k' by (cases r; cases r') simp_all
qed

lemma object_write_keeps:
  assumes "fs p = Some n"
  shows "snd (svcs_object_write now repo obj fs) p = Some n"
proof -
  let ?path = "get_object_path repo (obj_hash obj)"
  define fs1 where "fs1 = snd (svcs_mkdir_recursive now (dirname ?path) fs)"
  have k: "fs1 p = Some n" unfolding fs1_def using assms by (rule mkdir_recursive_keeps)
  show ?thesis
  proof (cases "fs1 ?path = None")
    case True
    then have "p \<noteq> ?path" using k by auto
    then show ?thesis
      using k True
      by (simp add: svcs_object_write_def slash_in_object_path svcs_file_exists_def
          fs1_def[symmetric] Let_def)
  next
    case False
    then show ?thesis
      using k object_write_existing[of now repo obj fs fs1] by (simp add: fs1_def)
  qed
qed

lemma create_tree_keeps:
  assumes "fs p = Some n"
  shows "snd (create_tree_from_index sha3_256 now repo fs) p = Some n"
proof (cases "entries (index repo) = []")
  case True
  then show ?thesis using assms by (simp add: create_tree_from_index_def)
next
  case False
  let ?obj = "\<lparr> obj_type = SVCS_OBJ_TREE, obj_size = length (tree_data (entries (index repo))),
                 obj_hash = svcs_hash_object sha3_256 SVCS_OBJ_TREE (tree_data (entries (index repo))) \<rparr>"
  obtain r fs' where w: "svcs_object_write now repo ?obj fs = (r, fs')"
    by (cases "svcs_object_write now repo ?obj fs")
  then have "fs' p = Some n" using assms object_write_keeps[of fs p n now repo ?obj] by simp
  then show ?thesis
    using False w by (cases r) (simp_all add: create_tree_from_index_def Let_def)
qed


lemma hash_string_first_digit:
  "\<exists>c cs. svcs_hash_to_string p = c # cs \<and> c \<in> set digit_chars"
proof -
  have "length (svcs_hash_to_string p) = 64" by (rule length_hash_to_string)
  then obtain c cs where "svcs_hash_to_string p = c # cs"
    by (cases "svcs_hash_to_string p") auto
  then show ?thesis using set_hash_to_string[of p] by auto
qed

lemma cstring_detached_head:
  "cstring (detached_head p) = svcs_hash_to_string p @ [CHR 0x0A]"
proof -
  have "NUL \<notin> set (svcs_hash_to_string p @ [CHR 0x0A])"
    using set_hash_to_string[of p] NUL_notin_digits by (auto simp: NUL_def)
  then show ?thesis unfolding detached_head_def by (rule cstring_bytes_of(2))
qed

lemma detached_head_not_symbolic: "take 5 (cstring (detached_head p)) \<noteq> ''ref: ''"
proof -
  obtain c cs where c: "svcs_hash_to_string p = c # cs" "c \<in> set digit_chars"
    using hash_string_first_digit by blast
  have "CHR ''r'' \<notin> set digit_chars" by (simp add: digit_chars_def)
  then have "c \<noteq> CHR ''r''" using c(2) by auto
  then show ?thesis by (simp add: cstring_detached_head c(1))
qed

lemma resolve_parent_detached:
  assumes "fs (git_dir repo @ ''/HEAD'') = Some \<lparr> st_mtime = t, st_data = Some (detached_head p) \<rparr>"
  shows "resolve_parent os repo fs = svcs_hash_init"
  using assms detached_head_not_symbolic[of p]
  by (simp add: resolve_parent_def svcs_file_read_def Let_def)

lemma update_ref_detached:
  assumes "fs (git_dir repo @ ''/HEAD'') = Some \<lparr> st_mtime = t, st_data = Some (detached_head p) \<rparr>"
  shows "update_ref os now repo h fs = fs"
  using assms detached_head_not_symbolic[of p]
  by (simp add: update_ref_def svcs_file_read_def Let_def)

lemma commit_content_root:
  "commit_content tree_hash svcs_hash_init author ts message
   = root_commit_text tree_hash author ts message"
  by (simp add: commit_content_def root_commit_text_def list_all_iff svcs_hash_init_def
      SVCS_HASH_SIZE_def Let_def)

lemma commit_create_detached:
  assumes "fs (git_dir repo @ ''/HEAD'') = Some \<lparr> st_mtime = t, st_data = Some (detached_head p) \<rparr>"
  shows "svcs_commit_create os sha3_256 strftime_s now repo message author fs =
     (case create_tree_from_index sha3_256 now repo fs of
        (Inl err, fs1) \<Rightarrow> (Inl err, fs1)
      | (Inr tree_hash, fs1) \<Rightarrow>
          (let content = bytes_of (root_commit_text tree_hash author
                                     (strftime_s now @ '' +0000'') message);
               commit_hash = svcs_hash_object sha3_256 SVCS_OBJ_COMMIT content
           in case svcs_object_write now repo
                     \<lparr> obj_type = SVCS_OBJ_COMMIT, obj_size = length content,
                       obj_hash = commit_hash \<rparr> fs1 of
                (Inl err, fs2) \<Rightarrow> (Inl err, fs2)
              | (Inr _, fs2) \<Rightarrow> (Inr commit_hash, fs2)))"
proof -
  let ?H = "git_dir repo @ ''/HEAD''"
  let ?n = "\<lparr> st_mtime = t, st_data = Some (detached_head p) \<rparr>"
  obtain r fs1 where ct: "create_tree_from_index sha3_256 now repo fs = (r, fs1)"
    by (cases "create_tree_from_index sha3_256 now repo fs")
  have h1: "fs1 ?H = Some ?n"
    using assms create_tree_keeps[of fs ?H ?n sha3_256 now repo] ct by simp
  show ?thesis
  proof (cases r)
    case (Inl err)
    then show ?thesis using ct by (simp add: svcs_commit_create_def)
  next
    case (Inr tree_hash)
    define content where
      "content = bytes_of (root_commit_text tree_hash author (strftime_s now @ '' +0000'') message)"
    define obj where
      "obj = \<lparr> obj_type = SVCS_OBJ_COMMIT, obj_size = length content,
               obj_hash = svcs_hash_object sha3_256 SVCS_OBJ_COMMIT content \<rparr>"
    obtain r2 fs2 where w: "svcs_object_write now repo obj fs1 = (r2, fs2)"
      by (cases "svcs_object_write now repo obj fs1")
    have h2: "fs2 ?H = Some ?n"
      using h1 object_write_keeps[of fs1 ?H ?n now repo obj] w by simp
    have u: "update_ref os now repo (svcs_hash_object sha3_256 SVCS_OBJ_COMMIT content) fs2 = fs2"
      using h2 by (rule update_ref_detached)
    have rp: "resolve_parent os repo fs1 = svcs_hash_init"
      using h1 by (rule resolve_parent_detached)
    show ?thesis
      using ct Inr w u
      by (cases r2)
         (simp_all add: svcs_commit_create_def rp commit_content_root Let_def
            content_def[symmetric] obj_def[symmetric])
  qed
qed

lemma commit_create_keeps:
  assumes "fs p = Some n"
    and "fs (git_dir repo @ ''/HEAD'') = Some \<lparr> st_mtime = t, st_data = Some (detached_head q) \<rparr>"
  shows "snd (svcs_commit_create os sha3_256 strftime_s now repo message author fs) p = Some n"
proof -
  obtain r fs1 where ct: "create_tree_from_index sha3_256 now repo fs = (r, fs1)"
    by (cases "create_tree_from_index sha3_256 now repo fs")
  have h1: "fs1 p = Some n"
    using assms(1) create_tree_keeps[of fs p n sha3_256 now repo] ct by simp
  show ?thesis
  proof (cases r)
    case (Inl err)
    then show ?thesis using ct h1 by (simp add: commit_create_detached[where fs = fs and repo = repo and t = t and p = q, OF assms(2)])
  next
    case (Inr tree_hash)
    define obj where
      "obj = \<lparr> obj_type = SVCS_OBJ_COMMIT,
               obj_size = length (bytes_of (root_commit_text tree_hash author
                                     (strftime_s now @ '' +0000'') message)),
               obj_hash = svcs_hash_object sha3_256 SVCS_OBJ_COMMIT
                            (bytes_of (root_commit_text tree_hash author
                                     (strftime_s now @ '' +0000'') message)) \<rparr>"
    obtain r2 fs2 where w: "svcs_object_write now repo obj fs1 = (r2, fs2)"
      by (cases "svcs_object_write now repo obj fs1")
    have h2: "fs2 p = Some n"
      using h1 object_write_keeps[of fs1 p n now repo obj] w by simp
    show ?thesis
      using ct Inr w h2
      by (cases r2) (simp_all add: commit_create_detached[where fs = fs and repo = repo and t = t and p = q, OF assms(2)] Let_def obj_def[symmetric])
  qed
qed

lemma example_head:
  "example_fs head (git_dir (example_repo es) @ ''/HEAD'') = Some \<lparr> st_mtime = 0, st_data = Some head \<rparr>"
  by (simp add: example_fs_def example_repo_def)

lemma example_commit_create:
  "svcs_commit_create os length_digest strftime_s_utc now (example_repo []) message author
     (example_fs (detached_head p))
   = (Inr (svcs_hash_object length_digest SVCS_OBJ_COMMIT
             (bytes_of (root_commit_text svcs_hash_init author
                          (strftime_s_utc now @ '' +0000'') message))),
      written_object_fs now (example_repo [])
        \<lparr> obj_type = SVCS_OBJ_COMMIT,
          obj_size = length (bytes_of (root_commit_text svcs_hash_init author
                                         (strftime_s_utc now @ '' +0000'') message)),
          obj_hash = svcs_hash_object length_digest SVCS_OBJ_COMMIT
                       (bytes_of (root_commit_text svcs_hash_init author
                                    (strftime_s_utc now @ '' +0000'') message)) \<rparr>
        (example_fs (detached_head p)))"
proof -
  have e: "entries (index (example_repo [])) = []" by (simp add: example_repo_def)
  show ?thesis
    unfolding commit_create_detached[where fs = "example_fs (detached_head p)"
        and repo = "example_repo []" and t = 0 and p = p, OF example_head]
    by (simp add: create_tree_empty[OF e] Let_def example_object_write)
qed

lemma detached_head_first_byte:
  "detached_head p = of_char (fmt_02x (p ! 0) ! 0) # tl (detached_head p)"
  by (simp add: detached_head_def hash_to_string_head bytes_of_def fmt_02x_def del: upt_Suc)

lemma example_parent_first_digit: "fmt_02x (example_parent ! 0) ! 0 = CHR ''a''"
    by (simp add: example_parent_def fmt_02x_def digit_chars_def)

lemma length_digest_first_digit: "fmt_02x (svcs_hash_object length_digest SVCS_OBJ_COMMIT x ! 0) ! 0 = CHR ''0''"
    by (simp add: svcs_hash_object_def EVP_DigestFinal_ex_def length_digest_def nth_append
        fmt_02x_def digit_chars_def)

lemma hd_detached_head: "hd (detached_head p) = of_char (fmt_02x (p ! 0) ! 0)"
  by (subst detached_head_first_byte) simp

text \<open>
  Claim C2, as the code has it. When \<^verbatim>\<open>HEAD\<close> holds a direct commit hash,
  \<^verbatim>\<open>svcs_commit_create\<close> does not take that hash as the parent: the commit is written with
  the text of a first commit, without a parent line, over the tree of the index; and after
  the commit object is written nothing else is touched, so \<^verbatim>\<open>HEAD\<close> still holds the hash it
  held before.
\<close>

theorem commit_create_detached_head:
  assumes "fs (git_dir repo @ ''/HEAD'') = Some \<lparr> st_mtime = t, st_data = Some (detached_head p) \<rparr>"
  shows "svcs_commit_create os sha3_256 strftime_s now repo message author fs =
           (case create_tree_from_index sha3_256 now repo fs of
              (Inl err, fs1) \<Rightarrow> (Inl err, fs1)
            | (Inr tree_hash, fs1) \<Rightarrow>
                (let content = bytes_of (root_commit_text tree_hash author
                                           (strftime_s now @ '' +0000'') message);
                     commit_hash = svcs_hash_object sha3_256 SVCS_OBJ_COMMIT content
                 in case svcs_object_write now repo
                           \<lparr> obj_type = SVCS_OBJ_COMMIT, obj_size = length content,
                             obj_hash = commit_hash \<rparr> fs1 of
                      (Inl err, fs2) \<Rightarrow> (Inl err, fs2)
                    | (Inr _, fs2) \<Rightarrow> (Inr commit_hash, fs2)))
         \<and> snd (svcs_commit_create os sha3_256 strftime_s now repo message author fs)
               (git_dir repo @ ''/HEAD'')
             = Some \<lparr> st_mtime = t, st_data = Some (detached_head p) \<rparr>"
proof (intro conjI)
  show "svcs_commit_create os sha3_256 strftime_s now repo message author fs =
           (case create_tree_from_index sha3_256 now repo fs of
              (Inl err, fs1) \<Rightarrow> (Inl err, fs1)
            | (Inr tree_hash, fs1) \<Rightarrow>
                (let content = bytes_of (root_commit_text tree_hash author
                                           (strftime_s now @ '' +0000'') message);
                     commit_hash = svcs_hash_object sha3_256 SVCS_OBJ_COMMIT content
                 in case svcs_object_write now repo
                           \<lparr> obj_type = SVCS_OBJ_COMMIT, obj_size = length content,
                             obj_hash = commit_hash \<rparr> fs1 of
                      (Inl err, fs2) \<Rightarrow> (Inl err, fs2)
                    | (Inr _, fs2) \<Rightarrow> (Inr commit_hash, fs2)))"
    by (rule commit_create_detached[where fs = fs and repo = repo and t = t and p = p, OF assms])
  show "snd (svcs_commit_create os sha3_256 strftime_s now repo message author fs)
               (git_dir repo @ ''/HEAD'')
             = Some \<lparr> st_mtime = t, st_data = Some (detached_head p) \<rparr>"
    by (rule commit_create_keeps[where fs = fs and repo = repo and t = t and q = p, OF assms assms])
qed

theorem commit_create_detached_head_witness:
  "example_fs (detached_head example_parent) (git_dir (example_repo []) @ ''/HEAD'')
     = Some \<lparr> st_mtime = 0, st_data = Some (detached_head example_parent) \<rparr>
   \<and> fst (svcs_commit_create tmpfs length_digest strftime_s_utc 0 (example_repo []) ''m'' ''a''
             (example_fs (detached_head example_parent)))
     = Inr (svcs_hash_object length_digest SVCS_OBJ_COMMIT
              (bytes_of (root_commit_text svcs_hash_init ''a'' (strftime_s_utc 0 @ '' +0000'') ''m'')))
   \<and> snd (svcs_commit_create tmpfs length_digest strftime_s_utc 0 (example_repo []) ''m'' ''a''
             (example_fs (detached_head example_parent)))
         (git_dir (example_repo []) @ ''/HEAD'')
     = Some \<lparr> st_mtime = 0, st_data = Some (detached_head example_parent) \<rparr>"
proof -
  have e: "entries (index (example_repo [])) = []" by (simp add: example_repo_def)
  note t = commit_create_detached_head[where fs = "example_fs (detached_head example_parent)"
      and repo = "example_repo []" and t = 0 and p = example_parent
      and ?sha3_256.0 = length_digest and strftime_s = strftime_s_utc and now = 0
      and message = "''m''" and author = "''a''", OF example_head]
  have w: "svcs_object_write 0 (example_repo []) obj (example_fs (detached_head example_parent))
        = (Inr (), written_object_fs 0 (example_repo []) obj (example_fs (detached_head example_parent)))"
    for obj by (rule example_object_write)
  have "svcs_commit_create tmpfs length_digest strftime_s_utc 0 (example_repo []) ''m'' ''a''
             (example_fs (detached_head example_parent))
     = (case create_tree_from_index length_digest 0 (example_repo [])
               (example_fs (detached_head example_parent)) of
              (Inl err, fs1) \<Rightarrow> (Inl err, fs1)
            | (Inr tree_hash, fs1) \<Rightarrow>
                (let content = bytes_of (root_commit_text tree_hash ''a''
                                           (strftime_s_utc 0 @ '' +0000'') ''m'');
                     commit_hash = svcs_hash_object length_digest SVCS_OBJ_COMMIT content
                 in case svcs_object_write 0 (example_repo [])
                           \<lparr> obj_type = SVCS_OBJ_COMMIT, obj_size = length content,
                             obj_hash = commit_hash \<rparr> fs1 of
                      (Inl err, fs2) \<Rightarrow> (Inl err, fs2)
                    | (Inr _, fs2) \<Rightarrow> (Inr commit_hash, fs2)))"
    by (rule conjunct1[OF t])
  also have "\<dots> = (Inr (svcs_hash_object length_digest SVCS_OBJ_COMMIT
              (bytes_of (root_commit_text svcs_hash_init ''a'' (strftime_s_utc 0 @ '' +0000'') ''m''))),
        written_object_fs 0 (example_repo [])
          \<lparr> obj_type = SVCS_OBJ_COMMIT,
            obj_size = length (bytes_of (root_commit_text svcs_hash_init ''a'' (strftime_s_utc 0 @ '' +0000'') ''m'')),
            obj_hash = svcs_hash_object length_digest SVCS_OBJ_COMMIT
              (bytes_of (root_commit_text svcs_hash_init ''a'' (strftime_s_utc 0 @ '' +0000'') ''m'')) \<rparr>
          (example_fs (detached_head example_parent)))"
    unfolding create_tree_empty[OF e] by (simp only: prod.case sum.case Let_def w)
  finally have f: "fst (svcs_commit_create tmpfs length_digest strftime_s_utc 0 (example_repo []) ''m'' ''a''
             (example_fs (detached_head example_parent)))
     = Inr (svcs_hash_object length_digest SVCS_OBJ_COMMIT
              (bytes_of (root_commit_text svcs_hash_init ''a'' (strftime_s_utc 0 @ '' +0000'') ''m'')))"
    by (simp only: fst_conv)
  show ?thesis
    by (intro conjI) (rule example_head, rule f, rule conjunct2[OF t])
qed

text \<open>
  The claim as written fails on a repository whose \<^verbatim>\<open>HEAD\<close> holds the hash \<open>abab\<dots>\<close>: the
  parent that \<^verbatim>\<open>svcs_commit_create\<close> resolves is the zero hash, the commit that is hashed has
  the text of a root commit, and \<^verbatim>\<open>HEAD\<close> holds the old hash afterwards, not the new one.
\<close>

theorem commit_create_detached_head_counterexample:
  "resolve_parent tmpfs (example_repo []) (example_fs (detached_head example_parent)) = svcs_hash_init
   \<and> svcs_hash_init \<noteq> example_parent
   \<and> fst (svcs_commit_create tmpfs length_digest strftime_s_utc 0 (example_repo []) ''m'' ''a''
             (example_fs (detached_head example_parent)))
     = Inr (svcs_hash_object length_digest SVCS_OBJ_COMMIT
              (bytes_of (root_commit_text svcs_hash_init ''a'' (strftime_s_utc 0 @ '' +0000'') ''m'')))
   \<and> snd (svcs_commit_create tmpfs length_digest strftime_s_utc 0 (example_repo []) ''m'' ''a''
             (example_fs (detached_head example_parent))) ''r/.svcs/HEAD''
     = Some \<lparr> st_mtime = 0, st_data = Some (detached_head example_parent) \<rparr>
   \<and> detached_head example_parent
     \<noteq> detached_head (svcs_hash_object length_digest SVCS_OBJ_COMMIT
          (bytes_of (root_commit_text svcs_hash_init ''a'' (strftime_s_utc 0 @ '' +0000'') ''m'')))"
proof -
  let ?F = "example_fs (detached_head example_parent)"
  let ?H = "svcs_hash_object length_digest SVCS_OBJ_COMMIT
              (bytes_of (root_commit_text svcs_hash_init ''a'' (strftime_s_utc 0 @ '' +0000'') ''m''))"
  have a: "resolve_parent tmpfs (example_repo []) ?F = svcs_hash_init"
    by (rule resolve_parent_detached[where t = 0 and p = example_parent]) (rule example_head)
  have b: "svcs_hash_init \<noteq> example_parent"
    by (simp add: svcs_hash_init_def example_parent_def SVCS_HASH_SIZE_def)
  have c: "fst (svcs_commit_create tmpfs length_digest strftime_s_utc 0 (example_repo []) ''m'' ''a'' ?F)
           = Inr ?H"
    unfolding example_commit_create by (simp only: fst_conv)
  have h: "git_dir (example_repo []) @ ''/HEAD'' = ''r/.svcs/HEAD''"
    by (simp add: example_repo_def)
  have d: "snd (svcs_commit_create tmpfs length_digest strftime_s_utc 0 (example_repo []) ''m'' ''a'' ?F)
             ''r/.svcs/HEAD''
           = Some \<lparr> st_mtime = 0, st_data = Some (detached_head example_parent) \<rparr>"
    using commit_create_keeps[where fs = ?F and repo = "example_repo []" and t = 0
        and q = example_parent and p = "git_dir (example_repo []) @ ''/HEAD''"
        and ?sha3_256.0 = length_digest and strftime_s = strftime_s_utc and now = 0
        and message = "''m''" and author = "''a''", OF example_head example_head]
    unfolding h .
  have e: "detached_head example_parent \<noteq> detached_head ?H"
  proof
    assume "detached_head example_parent = detached_head ?H"
    then have "hd (detached_head example_parent) = hd (detached_head ?H)" by (rule arg_cong)
    then have "(of_char CHR ''a'' :: byte) = of_char CHR ''0''"
      by (simp only: hd_detached_head example_parent_first_digit length_digest_first_digit)
    then show False by simp
  qed
  show ?thesis
    by (intro conjI) (rule a, rule b, rule c, rule d, rule e)
qed

subsection \<open>Topological order of the commit graph\<close>

text \<open>
  \<^verbatim>\<open>add_commit\<close> keeps the node table in the shape \<open>wf_table\<close>; on such a table the loop of
  \<^verbatim>\<open>topological_sort\<close> keeps \<open>kahn_inv\<close>, takes one more node into the result at each
  round, and ends with every node in the result.
\<close>

lemma stands_before_append: "stands_before xs a b \<Longrightarrow> stands_before (xs @ ys) a b"
  by (induction xs) auto

lemma stands_before_snoc: "a \<in> set xs \<Longrightarrow> stands_before (xs @ [b]) a b"
  by (induction xs) auto

lemma count_filter_notin:
  "x \<notin> S \<Longrightarrow> length (filter (\<lambda>p. p \<notin> S) ps) = length (filter (\<lambda>p. p \<notin> insert x S) ps) + count_list ps x"
  by (induction ps) auto

lemma linked_update:
  "ns s = Some pn \<Longrightarrow> linked (ns(s \<mapsto> pn')) phs = linked ns phs"
  unfolding linked_def by (rule filter_cong) auto

lemma link_parents_spec:
  "link_parents hs phs ps ns =
     (ps @ linked ns phs,
      \<lambda>k. map_option (\<lambda>n. n\<lparr> children := children n @ replicate (count_list (linked ns phs) k) hs \<rparr>) (ns k))"
proof (induction phs arbitrary: ps ns)
  case Nil
  show ?case by (simp add: linked_def fun_eq_iff option.map_ident)
next
  case (Cons a rest)
  show ?case
  proof (cases "ns (svcs_hash_to_string a)")
    case None
    then have "linked ns (a # rest) = linked ns rest" by (simp add: linked_def)
    with None Cons show ?thesis by simp
  next
    case (Some pn)
    then have l: "linked ns (a # rest) = svcs_hash_to_string a # linked ns rest" by (simp add: linked_def)
    let ?s = "svcs_hash_to_string a"
    let ?pn = "pn\<lparr> children := children pn @ [hs] \<rparr>"
    have u: "linked (ns(?s \<mapsto> ?pn)) rest = linked ns rest"
      using Some by (rule linked_update)
    have "link_parents hs (a # rest) ps ns = link_parents hs rest (ps @ [?s]) (ns(?s \<mapsto> ?pn))"
      using Some by (simp add: Let_def)
    also have "\<dots> = ((ps @ [?s]) @ linked ns rest,
        \<lambda>k. map_option (\<lambda>n. n\<lparr> children := children n @ replicate (count_list (linked ns rest) k) hs \<rparr>)
               ((ns(?s \<mapsto> ?pn)) k))"
      unfolding Cons u ..
    also have "\<dots> = (ps @ linked ns (a # rest),
        \<lambda>k. map_option (\<lambda>n. n\<lparr> children := children n @ replicate (count_list (linked ns (a # rest)) k) hs \<rparr>) (ns k))"
      unfolding l using Some by (auto simp: fun_eq_iff)
    finally show ?thesis .
  qed
qed


lemma linked_subset: "set (linked ns phs) \<subseteq> dom ns"
  by (auto simp: linked_def)

lemma add_commit_known:
  "nodes dag (svcs_hash_to_string hash) \<noteq> None \<Longrightarrow> add_commit dag hash m a t phs = dag"
  by (simp add: add_commit_def)

lemma add_commit_nodes:
  assumes "nodes dag (svcs_hash_to_string hash) = None"
  shows "nodes (add_commit dag hash m a t phs) =
     (\<lambda>k. map_option (\<lambda>n. n\<lparr> children := children n @
               replicate (count_list (linked (nodes dag) phs) k) (svcs_hash_to_string hash) \<rparr>) (nodes dag k))
     (svcs_hash_to_string hash \<mapsto>
        \<lparr> node_hash = hash, node_message = m, node_author = a, node_timestamp = t,
          parents = linked (nodes dag) phs, children = [] \<rparr>)"
  using assms by (simp add: add_commit_def link_parents_spec Let_def)

lemma add_commit_dom:
  assumes "nodes dag (svcs_hash_to_string hash) = None"
  shows "dom (nodes (add_commit dag hash m a t phs)) = insert (svcs_hash_to_string hash) (dom (nodes dag))"
  unfolding add_commit_nodes [OF assms] by (auto simp: dom_def)

lemma add_commit_parents_of:
  assumes "nodes dag (svcs_hash_to_string hash) = None"
  shows "parents_of (nodes (add_commit dag hash m a t phs)) k =
     (if k = svcs_hash_to_string hash then linked (nodes dag) phs else parents_of (nodes dag) k)"
  unfolding add_commit_nodes [OF assms] parents_of_def by (auto split: option.splits)

lemma add_commit_children_of:
  assumes "nodes dag (svcs_hash_to_string hash) = None" and "k \<in> dom (nodes dag)"
  shows "children_of (nodes (add_commit dag hash m a t phs)) k =
     children_of (nodes dag) k @ replicate (count_list (linked (nodes dag) phs) k) (svcs_hash_to_string hash)"
proof -
  from assms have "k \<noteq> svcs_hash_to_string hash" by auto
  then show ?thesis
    unfolding add_commit_nodes [OF assms(1)] children_of_def using assms(2) by (auto split: option.splits)
qed

lemma add_commit_children_of_new:
  assumes "nodes dag (svcs_hash_to_string hash) = None"
  shows "children_of (nodes (add_commit dag hash m a t phs)) (svcs_hash_to_string hash) = []"
  unfolding add_commit_nodes [OF assms] children_of_def by simp

lemma add_commit_hash_string:
  assumes "nodes dag (svcs_hash_to_string hash) = None"
      and "\<forall>k n. nodes dag k = Some n \<longrightarrow> hash_string n = k"
      and "nodes (add_commit dag hash m a t phs) k = Some n"
  shows "hash_string n = k"
  using assms(2,3) unfolding add_commit_nodes [OF assms(1)]
  by (auto simp: hash_string_def split: if_splits)

lemma count_list_notin: "x \<notin> set xs \<Longrightarrow> count_list xs x = 0"
  by (simp add: count_list_0_iff)

lemma count_list_replicate: "count_list (replicate n x) y = (if x = y then n else 0)"
  by (induction n) auto

lemma rank_sum: "p \<in> set ps \<Longrightarrow> (rank p :: nat) \<le> sum_list (map rank ps)"
  by (induction ps) auto

lemma add_commit_wf:
  assumes wf: "wf_table (nodes dag)"
  shows "wf_table (nodes (add_commit dag hash m a t phs))"
proof (cases "nodes dag (svcs_hash_to_string hash)")
  case (Some n)
  then show ?thesis using wf by (simp add: add_commit_known)
next
  case None
  let ?hs = "svcs_hash_to_string hash"
  let ?ns = "nodes dag"
  let ?ns' = "nodes (add_commit dag hash m a t phs)"
  let ?L = "linked ?ns phs"
  note dom' = add_commit_dom [OF None, of m a t phs]
  note par = add_commit_parents_of [OF None, of m a t phs]
  note chi = add_commit_children_of [OF None, of _ m a t phs]
  note chn = add_commit_children_of_new [OF None, of m a t phs]
  have fresh: "?hs \<notin> dom ?ns" using None by auto
  have L: "set ?L \<subseteq> dom ?ns" by (rule linked_subset)
  from wf have fin: "finite (dom ?ns)"
    and key: "\<forall>k n. ?ns k = Some n \<longrightarrow> hash_string n = k"
    and sub: "\<And>k. k \<in> dom ?ns \<Longrightarrow> set (parents_of ?ns k) \<subseteq> dom ?ns \<and> set (children_of ?ns k) \<subseteq> dom ?ns"
    and cnt: "\<And>p c. p \<in> dom ?ns \<Longrightarrow> c \<in> dom ?ns \<Longrightarrow>
        count_list (children_of ?ns p) c = count_list (parents_of ?ns c) p"
    unfolding wf_table_def by blast+
  from wf obtain rank :: "string \<Rightarrow> nat"
    where rank: "\<And>c p. c \<in> dom ?ns \<Longrightarrow> p \<in> set (parents_of ?ns c) \<Longrightarrow> rank p < rank c"
    unfolding wf_table_def by blast
  have 1: "finite (dom ?ns')" unfolding dom' using fin by simp
  have 2: "\<forall>k n. ?ns' k = Some n \<longrightarrow> hash_string n = k"
    using add_commit_hash_string [OF None key] by blast
  have 3: "\<forall>k \<in> dom ?ns'. set (parents_of ?ns' k) \<subseteq> dom ?ns' \<and> set (children_of ?ns' k) \<subseteq> dom ?ns'"
  proof
    fix k assume k: "k \<in> dom ?ns'"
    show "set (parents_of ?ns' k) \<subseteq> dom ?ns' \<and> set (children_of ?ns' k) \<subseteq> dom ?ns'"
    proof (cases "k = ?hs")
      case True
      then show ?thesis unfolding dom' using L by (simp add: par chn subset_insertI2)
    next
      case False
      with k have kd: "k \<in> dom ?ns" unfolding dom' by simp
      show ?thesis unfolding dom' using sub [OF kd] False by (auto simp: par chi [OF kd])
    qed
  qed
  have 4: "\<forall>p \<in> dom ?ns'. \<forall>c \<in> dom ?ns'.
        count_list (children_of ?ns' p) c = count_list (parents_of ?ns' c) p"
  proof (intro ballI)
    fix p c assume p: "p \<in> dom ?ns'" and c: "c \<in> dom ?ns'"
    show "count_list (children_of ?ns' p) c = count_list (parents_of ?ns' c) p"
    proof (cases "p = ?hs")
      case pn: True
      show ?thesis
      proof (cases "c = ?hs")
        case True
        from L fresh have "?hs \<notin> set ?L" by auto
        with pn True show ?thesis by (simp add: par chn count_list_notin)
      next
        case False
        with c have cd: "c \<in> dom ?ns" unfolding dom' by simp
        from sub [OF cd] fresh have "?hs \<notin> set (parents_of ?ns c)" by auto
        with pn False show ?thesis by (simp add: par chn count_list_notin)
      qed
    next
      case po: False
      with p have pd: "p \<in> dom ?ns" unfolding dom' by simp
      show ?thesis
      proof (cases "c = ?hs")
        case True
        from sub [OF pd] fresh have "?hs \<notin> set (children_of ?ns p)" by auto
        with True po show ?thesis by (simp add: par chi [OF pd] count_list_notin count_list_replicate)
      next
        case False
        with c have cd: "c \<in> dom ?ns" unfolding dom' by simp
        from False po show ?thesis by (simp add: par chi [OF pd] cnt [OF pd cd] count_list_replicate)
      qed
    qed
  qed
  have 5: "\<exists>rank :: string \<Rightarrow> nat. \<forall>c \<in> dom ?ns'. \<forall>p \<in> set (parents_of ?ns' c). rank p < rank c"
  proof (intro exI ballI)
    fix c p assume c: "c \<in> dom ?ns'" and p: "p \<in> set (parents_of ?ns' c)"
    let ?rank = "rank(?hs := Suc (sum_list (map rank ?L)))"
    show "?rank p < ?rank c"
    proof (cases "c = ?hs")
      case True
      with p have pl: "p \<in> set ?L" by (simp add: par)
      with L fresh have "p \<noteq> ?hs" by auto
      with True rank_sum [OF pl, of rank] show ?thesis by simp
    next
      case False
      with c have cd: "c \<in> dom ?ns" unfolding dom' by simp
      from p False have pp: "p \<in> set (parents_of ?ns c)" by (simp add: par)
      with sub [OF cd] fresh have "p \<noteq> ?hs" by auto
      with False rank [OF cd pp] show ?thesis by simp
    qed
  qed
  show ?thesis unfolding wf_table_def using 1 2 3 4 5 by blast
qed

lemma empty_wf: "wf_table (nodes empty_dag)"
  by (simp add: wf_table_def empty_dag_def)

lemma built_wf: "built dag \<Longrightarrow> wf_table (nodes dag)"
  by (induction rule: built.induct) (simp_all add: empty_wf add_commit_wf)

lemma visit_children_spec:
  assumes "\<forall>c \<in> set cs. \<exists>n. ns c = Some n \<and> hash_string n = c"
      and "\<forall>c \<in> set cs. int (count_list cs c) \<le> d c"
  shows "\<exists>pushed. visit_children ns cs d q = (\<lambda>k. d k - int (count_list cs k), q @ pushed) \<and>
           distinct pushed \<and> set pushed = {c \<in> set cs. d c = int (count_list cs c)}"
  using assms
proof (induction cs arbitrary: d q)
  case Nil
  show ?case by simp
next
  case (Cons c rest)
  from Cons.prems(1) obtain n where n: "ns c = Some n" "hash_string n = c" by auto
  let ?d1 = "d(c := d c - 1)"
  have p1: "\<forall>x \<in> set rest. \<exists>n. ns x = Some n \<and> hash_string n = x" using Cons.prems(1) by simp
  have p2: "\<forall>x \<in> set rest. int (count_list rest x) \<le> ?d1 x"
  proof
    fix x assume x: "x \<in> set rest"
    with Cons.prems(2) have "int (count_list (c # rest) x) \<le> d x" by simp
    then show "int (count_list rest x) \<le> ?d1 x" by (cases "x = c") auto
  qed
  have dc: "int (count_list rest c) + 1 \<le> d c" using Cons.prems(2) by simp
  have fn: "(\<lambda>k. ?d1 k - int (count_list rest k)) = (\<lambda>k. d k - int (count_list (c # rest) k))"
    by (auto simp: fun_eq_iff)
  show ?case
  proof (cases "d c = 1")
    case True
    with dc have notin: "c \<notin> set rest" by (simp add: count_list_0_iff [symmetric])
    from Cons.IH [OF p1 p2, of "q @ [c]"] obtain pushed
      where v: "visit_children ns rest ?d1 (q @ [c]) = (\<lambda>k. ?d1 k - int (count_list rest k), (q @ [c]) @ pushed)"
        and dp: "distinct pushed"
        and sp: "set pushed = {x \<in> set rest. ?d1 x = int (count_list rest x)}" by blast
    have "visit_children ns (c # rest) d q = (\<lambda>k. d k - int (count_list (c # rest) k), q @ (c # pushed))"
      using n True v fn by (simp add: Let_def)
    moreover have "distinct (c # pushed)" using dp sp notin by simp
    moreover have "set (c # pushed) = {x \<in> set (c # rest). d x = int (count_list (c # rest) x)}"
      using sp notin True by (auto simp: count_list_notin)
    ultimately show ?thesis by blast
  next
    case False
    from Cons.IH [OF p1 p2, of q] obtain pushed
      where v: "visit_children ns rest ?d1 q = (\<lambda>k. ?d1 k - int (count_list rest k), q @ pushed)"
        and dp: "distinct pushed"
        and sp: "set pushed = {x \<in> set rest. ?d1 x = int (count_list rest x)}" by blast
    have "visit_children ns (c # rest) d q = (\<lambda>k. d k - int (count_list (c # rest) k), q @ pushed)"
      using n False v fn by (simp add: Let_def)
    moreover have "set pushed = {x \<in> set (c # rest). d x = int (count_list (c # rest) x)}"
    proof (cases "c \<in> set rest")
      case True
      then show ?thesis unfolding sp by auto
    next
      case nin: False
      then have "count_list rest c = 0" by (simp add: count_list_notin)
      with False nin show ?thesis unfolding sp by auto
    qed
    ultimately show ?thesis using dp by blast
  qed
qed

lemma init_in_degree_spec:
  assumes "set order \<subseteq> dom ns"
  shows "init_in_degree ns order d q =
     (\<lambda>k. if k \<in> set order then int (length (parents_of ns k)) else d k,
      q @ filter (\<lambda>k. parents_of ns k = []) order)"
  using assms
proof (induction order arbitrary: d q)
  case Nil
  show ?case by simp
next
  case (Cons h rest)
  then obtain n where n: "ns h = Some n" by auto
  from Cons.prems have r: "set rest \<subseteq> dom ns" by simp
  show ?case
    using n by (auto simp: Cons.IH [OF r] Let_def parents_of_def fun_eq_iff)
qed

lemma remaining_snoc:
  assumes "cur \<notin> set r"
  shows "remaining ns r c = remaining ns (r @ [cur]) c + int (count_list (parents_of ns c) cur)"
  unfolding remaining_def using count_filter_notin [OF assms, of "parents_of ns c"] by simp

lemma kahn_step:
  assumes wf: "wf_table ns" and inv: "kahn_inv ns (cur # rest) d r"
  shows "\<exists>d' pushed. visit_children ns (children_of ns cur) d rest = (d', rest @ pushed) \<and>
           kahn_inv ns (rest @ pushed) d' (r @ [cur])"
proof -
  let ?cs = "children_of ns cur"
  from inv have dist: "distinct (r @ cur # rest)" and sub: "set (r @ cur # rest) \<subseteq> dom ns"
    and deg: "\<And>c. c \<in> dom ns \<Longrightarrow> d c = remaining ns r c"
    and zero: "\<And>c. c \<in> dom ns \<Longrightarrow> c \<in> set (r @ cur # rest) \<longleftrightarrow> d c = 0"
    and topo: "\<And>c p. c \<in> set r \<Longrightarrow> p \<in> set (parents_of ns c) \<Longrightarrow> stands_before r p c"
    unfolding kahn_inv_def by blast+
  from wf have key: "\<And>k n. ns k = Some n \<Longrightarrow> hash_string n = k"
    and closed: "\<And>k. k \<in> dom ns \<Longrightarrow> set (parents_of ns k) \<subseteq> dom ns \<and> set (children_of ns k) \<subseteq> dom ns"
    and cnt: "\<And>p c. p \<in> dom ns \<Longrightarrow> c \<in> dom ns \<Longrightarrow>
        count_list (children_of ns p) c = count_list (parents_of ns c) p"
    unfolding wf_table_def by blast+
  from sub have cur: "cur \<in> dom ns" by simp
  from dist have cur_r: "cur \<notin> set r" and cur_rest: "cur \<notin> set rest" by auto
  from closed [OF cur] have cs: "set ?cs \<subseteq> dom ns" by simp
  have rem: "\<And>c. c \<in> dom ns \<Longrightarrow> d c = remaining ns (r @ [cur]) c + int (count_list ?cs c)"
    using deg remaining_snoc [OF cur_r, of ns] cnt [OF cur] by simp
  have nonneg: "\<And>c. 0 \<le> remaining ns (r @ [cur]) c" by (simp add: remaining_def)
  have pre1: "\<forall>c \<in> set ?cs. \<exists>n. ns c = Some n \<and> hash_string n = c"
    using cs key by blast
  have pre2: "\<forall>c \<in> set ?cs. int (count_list ?cs c) \<le> d c"
  proof
    fix c assume "c \<in> set ?cs"
    with cs have "c \<in> dom ns" by auto
    from rem [OF this] nonneg [of c] show "int (count_list ?cs c) \<le> d c" by simp
  qed
  from visit_children_spec [OF pre1 pre2, of rest] obtain pushed
    where v: "visit_children ns ?cs d rest = (\<lambda>k. d k - int (count_list ?cs k), rest @ pushed)"
      and dp: "distinct pushed"
      and sp: "set pushed = {c \<in> set ?cs. d c = int (count_list ?cs c)}" by blast
  let ?d' = "\<lambda>k. d k - int (count_list ?cs k)"
  have pushed_dom: "set pushed \<subseteq> dom ns" using sp cs by auto
  have pushed_new: "\<And>c. c \<in> set pushed \<Longrightarrow> c \<notin> set (r @ cur # rest)"
  proof
    fix c assume c: "c \<in> set pushed" and old: "c \<in> set (r @ cur # rest)"
    from c pushed_dom have cd: "c \<in> dom ns" by auto
    from c sp have "c \<in> set ?cs" and e: "d c = int (count_list ?cs c)" by auto
    then have "count_list ?cs c \<noteq> 0" by (simp add: count_list_0_iff)
    with e have "d c \<noteq> 0" by simp
    with zero [OF cd] old show False by simp
  qed
  have i1: "distinct ((r @ [cur]) @ rest @ pushed)"
    using dist dp pushed_new by auto
  have i2: "set ((r @ [cur]) @ rest @ pushed) \<subseteq> dom ns"
    using sub pushed_dom by auto
  have i3: "\<forall>c \<in> dom ns. ?d' c = remaining ns (r @ [cur]) c"
    using rem by simp
  have i4: "\<forall>c \<in> dom ns. c \<in> set ((r @ [cur]) @ rest @ pushed) \<longleftrightarrow> ?d' c = 0"
  proof
    fix c assume cd: "c \<in> dom ns"
    show "c \<in> set ((r @ [cur]) @ rest @ pushed) \<longleftrightarrow> ?d' c = 0"
    proof (cases "c \<in> set (r @ cur # rest)")
      case True
      with zero [OF cd] have "d c = 0" by simp
      with rem [OF cd] nonneg [of c] have "int (count_list ?cs c) = 0" by simp
      with \<open>d c = 0\<close> True show ?thesis by auto
    next
      case False
      with zero [OF cd] have nz: "d c \<noteq> 0" by simp
      have "c \<in> set pushed \<longleftrightarrow> d c = int (count_list ?cs c)"
      proof
        assume "c \<in> set pushed" with sp show "d c = int (count_list ?cs c)" by simp
      next
        assume e: "d c = int (count_list ?cs c)"
        with nz have "count_list ?cs c \<noteq> 0" by simp
        then have "c \<in> set ?cs" by (simp add: count_list_0_iff)
        with e sp show "c \<in> set pushed" by simp
      qed
      with False show ?thesis by auto
    qed
  qed
  have i5: "\<forall>c \<in> set (r @ [cur]). \<forall>p \<in> set (parents_of ns c). stands_before (r @ [cur]) p c"
  proof (intro ballI)
    fix c p assume c: "c \<in> set (r @ [cur])" and p: "p \<in> set (parents_of ns c)"
    show "stands_before (r @ [cur]) p c"
    proof (cases "c \<in> set r")
      case True
      from topo [OF True p] show ?thesis by (rule stands_before_append)
    next
      case False
      with c have cc: "c = cur" by simp
      from zero [OF cur] have "d cur = 0" by simp
      with deg [OF cur] have "filter (\<lambda>p. p \<notin> set r) (parents_of ns cur) = []"
        by (simp add: remaining_def)
      with p cc have "p \<in> set r" by (auto simp: filter_empty_conv)
      then show ?thesis unfolding cc by (rule stands_before_snoc)
    qed
  qed
  have "kahn_inv ns (rest @ pushed) ?d' (r @ [cur])"
    unfolding kahn_inv_def using i1 i2 i3 i4 i5 by blast
  with v show ?thesis by blast
qed

lemma kahn_loop_returns:
  assumes wf: "wf_table ns"
  shows "kahn_inv ns q d r \<Longrightarrow> \<exists>res d'. kahn_loop ns q d r = Some res \<and> kahn_inv ns [] d' res"
proof (induction "card (dom ns - set r)" arbitrary: q d r rule: less_induct)
  case less
  show ?case
  proof (cases q)
    case Nil
    then have "kahn_loop ns q d r = Some r" by (simp add: kahn_loop.simps)
    with less.prems Nil show ?thesis by blast
  next
    case (Cons cur rest)
    from kahn_step [OF wf less.prems [unfolded Cons]] obtain d' pushed
      where v: "visit_children ns (children_of ns cur) d rest = (d', rest @ pushed)"
        and inv': "kahn_inv ns (rest @ pushed) d' (r @ [cur])" by blast
    from less.prems Cons have "cur \<in> dom ns" "cur \<notin> set r" unfolding kahn_inv_def by auto
    moreover from wf have "finite (dom ns)" by (simp add: wf_table_def)
    ultimately have "card (dom ns - set (r @ [cur])) < card (dom ns - set r)"
      by (intro psubset_card_mono) auto
    from less.hyps [OF this inv'] obtain res d'' 
      where r: "kahn_loop ns (rest @ pushed) d' (r @ [cur]) = Some res" "kahn_inv ns [] d'' res" by blast
    have "kahn_loop ns q d r = kahn_loop ns (rest @ pushed) d' (r @ [cur])"
      unfolding Cons using v by (subst kahn_loop.simps) (simp add: children_of_def)
    with r show ?thesis by auto
  qed
qed

lemma kahn_all_output:
  assumes wf: "wf_table ns" and inv: "kahn_inv ns [] d res"
  shows "set res = dom ns"
proof -
  from wf obtain rank :: "string \<Rightarrow> nat"
    where rank: "\<And>c p. c \<in> dom ns \<Longrightarrow> p \<in> set (parents_of ns c) \<Longrightarrow> rank p < rank c"
    unfolding wf_table_def by blast
  from wf have closed: "\<And>k. k \<in> dom ns \<Longrightarrow> set (parents_of ns k) \<subseteq> dom ns"
    unfolding wf_table_def by blast
  from inv have sub: "set res \<subseteq> dom ns"
    and deg: "\<And>c. c \<in> dom ns \<Longrightarrow> d c = remaining ns res c"
    and zero: "\<And>c. c \<in> dom ns \<Longrightarrow> c \<in> set res \<longleftrightarrow> d c = 0"
    unfolding kahn_inv_def by auto
  have "c \<in> dom ns \<Longrightarrow> c \<in> set res" for c
  proof (induction c rule: measure_induct_rule [of rank])
    case (less c)
    have "\<forall>p \<in> set (parents_of ns c). p \<in> set res"
    proof
      fix p assume p: "p \<in> set (parents_of ns c)"
      with closed [OF less.prems] have "p \<in> dom ns" by auto
      with less.IH [OF rank [OF less.prems p]] show "p \<in> set res" .
    qed
    then have "remaining ns res c = 0" by (simp add: remaining_def filter_empty_conv)
    with deg [OF less.prems] zero [OF less.prems] show ?case by simp
  qed
  with sub show ?thesis by auto
qed

lemma topological_sort_correct:
  assumes wf: "wf_table (nodes dag)" and d: "distinct order" and s: "set order = dom (nodes dag)"
  shows "\<exists>result in_degree. topological_sort dag order = Some result \<and> kahn_inv (nodes dag) [] in_degree result"
proof -
  let ?ns = "nodes dag"
  let ?d = "\<lambda>k. if k \<in> set order then int (length (parents_of ?ns k)) else 0"
  let ?q = "filter (\<lambda>k. parents_of ?ns k = []) order"
  from s have "set order \<subseteq> dom ?ns" by simp
  from init_in_degree_spec [OF this, of "\<lambda>_. 0" "[]"]
  have i: "init_in_degree ?ns order (\<lambda>_. 0) [] = (?d, ?q)" by simp
  have "kahn_inv ?ns ?q ?d []"
    unfolding kahn_inv_def remaining_def using d s by auto
  from kahn_loop_returns [OF wf this] show ?thesis
    unfolding topological_sort_def i by simp
qed

lemma example_key_eq:
  "svcs_hash_to_string (example_hash a) = svcs_hash_to_string (example_hash b) \<longleftrightarrow> a = b"
proof
  assume e: "svcs_hash_to_string (example_hash a) = svcs_hash_to_string (example_hash b)"
  have "Inr (example_hash a) = svcs_hash_from_string (svcs_hash_to_string (example_hash a))"
    by (simp add: hash_roundtrip example_hash_def)
  also have "\<dots> = Inr (example_hash b)"
    unfolding e by (simp add: hash_roundtrip example_hash_def)
  finally have "replicate 32 a = replicate 32 b" by (simp add: example_hash_def)
  then have "replicate 32 a ! 0 = replicate 32 b ! 0" by (rule arg_cong)
  then show "a = b" by simp
qed simp

lemma example_dag_built: "built example_dag"
  unfolding example_dag_def by (intro built.intros)

lemma example_dag_nodes:
  "dom (nodes example_dag) = set (map (\<lambda>b. svcs_hash_to_string (example_hash b)) [3, 1, 2])"
  "parents_of (nodes example_dag) (svcs_hash_to_string (example_hash 3))
     = [svcs_hash_to_string (example_hash 2), svcs_hash_to_string (example_hash 1)]"
  "children_of (nodes example_dag) (svcs_hash_to_string (example_hash 2))
     = [svcs_hash_to_string (example_hash 3)]"
proof -
  let ?k = "\<lambda>b. svcs_hash_to_string (example_hash b)"
  let ?d1 = "add_commit empty_dag (example_hash 1) ''Initial commit'' ''Author'' 100 []"
  let ?d2 = "add_commit ?d1 (example_hash 2) ''Second commit'' ''Author'' 200 [example_hash 1]"
  have n1: "nodes empty_dag (?k 1) = None" by (simp add: empty_dag_def)
  have 1: "dom (nodes ?d1) = {?k 1}"
    by (subst add_commit_dom [OF n1]) (simp add: empty_dag_def)
  then have "?k 2 \<notin> dom (nodes ?d1)" by (simp add: example_key_eq)
  then have n2: "nodes ?d1 (?k 2) = None" by blast
  have 2: "dom (nodes ?d2) = {?k 2, ?k 1}"
    by (subst add_commit_dom [OF n2]) (simp add: 1)
  then have "?k 3 \<notin> dom (nodes ?d2)" by (simp add: example_key_eq)
  then have n3: "nodes ?d2 (?k 3) = None" by blast
  have l: "linked (nodes ?d2) [example_hash 2, example_hash 1] = [?k 2, ?k 1]"
    using 2 by (auto simp: linked_def)
  have k2: "?k 2 \<in> dom (nodes ?d2)" using 2 by simp
  have c2: "children_of (nodes ?d2) (?k 2) = []"
    by (rule add_commit_children_of_new [OF n2])
  show "dom (nodes example_dag) = set (map ?k [3, 1, 2])"
    unfolding example_dag_def by (subst add_commit_dom [OF n3]) (auto simp: 2)
  show "parents_of (nodes example_dag) (?k 3) = [?k 2, ?k 1]"
    unfolding example_dag_def by (simp add: add_commit_parents_of [OF n3] l)
  show "children_of (nodes example_dag) (?k 2) = [?k 3]"
    unfolding example_dag_def
    by (simp add: add_commit_children_of [OF n3 k2] l c2 example_key_eq)
qed

text \<open>
  Claim C7. For every graph built by a sequence of \<^verbatim>\<open>add_commit\<close> calls, and every order in
  which the first loop of \<^verbatim>\<open>topological_sort\<close> may run over the node table,
  \<^verbatim>\<open>topological_sort\<close> returns, its result holds every node of the graph once, and in it every
  node stands before each of its children and every parent before each node that lists it as
  a parent.
\<close>

theorem topological_sort_parents_before_children:
  assumes "built dag" and "distinct order" and "set order = dom (nodes dag)"
  shows "\<exists>result. topological_sort dag order = Some result \<and>
           distinct result \<and> set result = dom (nodes dag) \<and>
           (\<forall>k n c. nodes dag k = Some n \<and> c \<in> set (children n) \<longrightarrow> stands_before result k c) \<and>
           (\<forall>k n p. nodes dag k = Some n \<and> p \<in> set (parents n) \<longrightarrow> stands_before result p k)"
proof -
  let ?ns = "nodes dag"
  from assms(1) have wf: "wf_table ?ns" by (rule built_wf)
  from topological_sort_correct [OF wf assms(2,3)] obtain result in_degree
    where t: "topological_sort dag order = Some result"
      and inv: "kahn_inv ?ns [] in_degree result" by blast
  from kahn_all_output [OF wf inv] have all: "set result = dom ?ns" .
  from inv have dist: "distinct result"
    and topo: "\<And>c p. c \<in> set result \<Longrightarrow> p \<in> set (parents_of ?ns c) \<Longrightarrow> stands_before result p c"
    unfolding kahn_inv_def by auto
  from wf have closed: "\<And>k. k \<in> dom ?ns \<Longrightarrow> set (children_of ?ns k) \<subseteq> dom ?ns"
    and cnt: "\<And>p c. p \<in> dom ?ns \<Longrightarrow> c \<in> dom ?ns \<Longrightarrow>
        count_list (children_of ?ns p) c = count_list (parents_of ?ns c) p"
    unfolding wf_table_def by blast+
  have ch: "stands_before result k c" if "?ns k = Some n" and "c \<in> set (children n)" for k n c
  proof -
    from that have k: "k \<in> dom ?ns" and c: "c \<in> set (children_of ?ns k)"
      by (auto simp: children_of_def)
    with closed have cd: "c \<in> dom ?ns" by blast
    from c have "count_list (children_of ?ns k) c \<noteq> 0" by (simp add: count_list_0_iff)
    with cnt [OF k cd] have "k \<in> set (parents_of ?ns c)" by (simp add: count_list_0_iff)
    with cd all show ?thesis by (intro topo) simp_all
  qed
  have pa: "stands_before result p k" if "?ns k = Some n" and "p \<in> set (parents n)" for k n p
  proof -
    from that have "k \<in> set result" and "p \<in> set (parents_of ?ns k)"
      unfolding all by (auto simp: parents_of_def)
    then show ?thesis by (rule topo)
  qed
  from t dist all ch pa show ?thesis by blast
qed


theorem topological_sort_parents_before_children_witness:
  "built example_dag \<and>
   distinct (map (\<lambda>b. svcs_hash_to_string (example_hash b)) [3, 1, 2]) \<and>
   set (map (\<lambda>b. svcs_hash_to_string (example_hash b)) [3, 1, 2]) = dom (nodes example_dag) \<and>
   (\<exists>result. topological_sort example_dag (map (\<lambda>b. svcs_hash_to_string (example_hash b)) [3, 1, 2])
                = Some result \<and>
      stands_before result (svcs_hash_to_string (example_hash 2)) (svcs_hash_to_string (example_hash 3)) \<and>
      stands_before result (svcs_hash_to_string (example_hash 1)) (svcs_hash_to_string (example_hash 3)))"
proof -
  let ?k = "\<lambda>b. svcs_hash_to_string (example_hash b)"
  have d: "distinct (map ?k [3, 1, 2])" by (simp add: example_key_eq)
  have s: "set (map ?k [3, 1, 2]) = dom (nodes example_dag)" by (rule example_dag_nodes(1) [symmetric])
  from s have "?k 3 \<in> dom (nodes example_dag)" and "?k 2 \<in> dom (nodes example_dag)" by auto
  then obtain n3 n2 where n3: "nodes example_dag (?k 3) = Some n3"
    and n2: "nodes example_dag (?k 2) = Some n2" by blast
  from n3 example_dag_nodes(2) have p3: "parents n3 = [?k 2, ?k 1]" by (simp add: parents_of_def)
  from n2 example_dag_nodes(3) have c2: "children n2 = [?k 3]" by (simp add: children_of_def)
  from topological_sort_parents_before_children [OF example_dag_built d s] obtain result
    where t: "topological_sort example_dag (map ?k [3, 1, 2]) = Some result"
      and ch: "\<And>k n c. nodes example_dag k = Some n \<Longrightarrow> c \<in> set (children n) \<Longrightarrow> stands_before result k c"
      and pa: "\<And>k n p. nodes example_dag k = Some n \<Longrightarrow> p \<in> set (parents n) \<Longrightarrow> stands_before result p k"
    by blast
  from ch [OF n2] c2 have "stands_before result (?k 2) (?k 3)" by simp
  moreover from pa [OF n3] p3 have "stands_before result (?k 1) (?k 3)" by simp
  ultimately show ?thesis using example_dag_built d s t by blast
qed

end
